theory Spec2Isabelle
  imports Main "HOL-Library.Sublist"
begin

section \<open>Tag-pair highlighting for WXML documents\<close>

text \<open>
  A shallow embedding of the class \<open>WxmlDocumentHighlight\<close>: the method
  \<open>provideDocumentHighlights\<close>, its private helpers \<open>normalize\<close>,
  \<open>findMatchedEndTag\<close> and \<open>findMatchedStartTag\<close>, and the module functions
  \<open>prev\<close> and \<open>next\<close>.

  A JavaScript string is a sequence of UTF-16 code units; it is modelled as a
  \<open>string\<close>, whose characters stand for the code units below 256.  Of the
  characters that the regular expressions of the source single out, only the
  line terminators U+2028 and U+2029 and the white space beyond U+00A0 lie
  outside that range.
\<close>

subsection \<open>Regular expressions with backtracking\<close>

text \<open>
  The source uses six regular expressions.  They are kept as syntax trees and
  run by one backtracking matcher, so that each tree can be compared with the
  literal in the source.  \<open>Star\<close> and \<open>Plus\<close> are the greedy quantifiers
  \<open>*\<close> and \<open>+\<close>, \<open>LazyStar\<close> is \<open>*?\<close>, \<open>Alt\<close> is the ordered
  alternation \<open>|\<close>.
\<close>

datatype rx =
    Lit char
  | Cls "char \<Rightarrow> bool"
  | Seq rx rx
  | Alt rx rx
  | Star rx
  | LazyStar rx

definition Plus :: "rx \<Rightarrow> rx" where
  "Plus r = Seq r (Star r)"

fun Str :: "string \<Rightarrow> rx \<Rightarrow> rx" where
  "Str [] r = r"
| "Str (c # cs) r = Seq (Lit c) (Str cs r)"

text \<open>
  \<open>ends r s\<close> lists, in the order in which a backtracking matcher tries
  them, the remainders of \<open>s\<close> after each way of matching \<open>r\<close> at the start
  of \<open>s\<close>.  The first entry is the match that JavaScript reports.  An
  iteration of a quantifier that consumes nothing is rejected, as in
  ECMAScript's RepeatMatcher.
\<close>

function ends :: "rx \<Rightarrow> string \<Rightarrow> string list" where
  "ends (Lit c) s = (case s of [] \<Rightarrow> [] | x # t \<Rightarrow> if x = c then [t] else [])"
| "ends (Cls P) s = (case s of [] \<Rightarrow> [] | x # t \<Rightarrow> if P x then [t] else [])"
| "ends (Seq a b) s = concat (map (ends b) (ends a s))"
| "ends (Alt a b) s = ends a s @ ends b s"
| "ends (Star a) s =
     concat (map (\<lambda>t. if length t < length s then ends (Star a) t else []) (ends a s)) @ [s]"
| "ends (LazyStar a) s =
     s # concat (map (\<lambda>t. if length t < length s then ends (LazyStar a) t else []) (ends a s))"
  by pat_completeness auto
termination
  by (relation "inv_image (less_than <*lex*> less_than) (\<lambda>(r, s). (size r, length s))") auto

declare ends.simps(5,6) [simp del]

text \<open>The text matched at the start of \<open>s\<close>, if the expression matches there.\<close>

definition matchAt :: "rx \<Rightarrow> string \<Rightarrow> string option" where
  "matchAt r s =
     (case ends r s of [] \<Rightarrow> None | t # _ \<Rightarrow> Some (take (length s - length t) s))"

subsection \<open>Character classes\<close>

text \<open>\<open>[\w:-]\<close>: ASCII letters, digits, underscore, colon and hyphen.\<close>

definition isNameChar :: "char \<Rightarrow> bool" where
  "isNameChar c \<longleftrightarrow>
     c \<in> set ''abcdefghijklmnopqrstuvwxyz'' \<or> c \<in> set ''ABCDEFGHIJKLMNOPQRSTUVWXYZ'' \<or>
     c \<in> set ''0123456789'' \<or> c = CHR ''_'' \<or> c = CHR '':'' \<or> c = CHR ''-''"

text \<open>\<open>\s\<close>: tab, line feed, vertical tab, form feed, carriage return, space, no-break space.\<close>

definition isSpace :: "char \<Rightarrow> bool" where
  "isSpace c \<longleftrightarrow> c \<in> {CHR 0x09, CHR 0x0A, CHR 0x0B, CHR 0x0C, CHR 0x0D, CHR 0x20, CHR 0xA0}"

text \<open>\<open>.\<close> (without the \<open>s\<close> flag): any character but a line terminator.\<close>

definition isDot :: "char \<Rightarrow> bool" where
  "isDot c \<longleftrightarrow> c \<noteq> CHR 0x0A \<and> c \<noteq> CHR 0x0D"

definition notDQuote :: "char \<Rightarrow> bool" where
  "notDQuote c \<longleftrightarrow> c \<noteq> CHR 0x22"

definition notSQuote :: "char \<Rightarrow> bool" where
  "notSQuote c \<longleftrightarrow> c \<noteq> CHR 0x27"

definition notAngle :: "char \<Rightarrow> bool" where
  "notAngle c \<longleftrightarrow> c \<noteq> CHR ''<'' \<and> c \<noteq> CHR ''>''"

subsection \<open>The regular expressions of the source\<close>

text \<open>\<^verbatim>\<open>/<!--.*?-->/g\<close>\<close>

definition commentRx :: rx where
  "commentRx = Str ''<!--'' (Seq (LazyStar (Cls isDot)) (Str ''--'' (Lit CHR ''>'')))"

text \<open>\<^verbatim>\<open>/("[^"]*"|'[^']*')/g\<close>\<close>

definition quotedRx :: rx where
  "quotedRx =
     Alt (Seq (Lit CHR 0x22) (Seq (Star (Cls notDQuote)) (Lit CHR 0x22)))
         (Seq (Lit CHR 0x27) (Seq (Star (Cls notSQuote)) (Lit CHR 0x27)))"

text \<open>\<^verbatim>\<open>/<[\w:-]+\s+[^<>]*\/>/g\<close>\<close>

definition selfClosingRx :: rx where
  "selfClosingRx =
     Seq (Lit CHR ''<'') (Seq (Plus (Cls isNameChar)) (Seq (Plus (Cls isSpace))
       (Seq (Star (Cls notAngle)) (Seq (Lit CHR ''/'') (Lit CHR ''>'')))))"

text \<open>
  \<^verbatim>\<open>TagRegexp = /<([\w:-]+)|<\/([\w:-]+)>/g\<close>, as its two alternatives; the
  capture groups are read off the matched text.
\<close>

definition startTagRx :: rx where
  "startTagRx = Seq (Lit CHR ''<'') (Plus (Cls isNameChar))"

definition endTagRx :: rx where
  "endTagRx = Seq (Lit CHR ''<'') (Seq (Lit CHR ''/'') (Seq (Plus (Cls isNameChar)) (Lit CHR ''>'')))"

text \<open>\<^verbatim>\<open>/^[^<>]*\/>/\<close>, tested at the start of the text only.\<close>

definition selfCloseTestRx :: rx where
  "selfCloseTestRx = Seq (Star (Cls notAngle)) (Seq (Lit CHR ''/'') (Lit CHR ''>''))"

text \<open>\<^verbatim>\<open>/[\w:-]+/\<close>, the word pattern handed to \<open>getWordRangeAtPosition\<close>.\<close>

definition wordRx :: rx where
  "wordRx = Plus (Cls isNameChar)"

subsection \<open>normalize\<close>

text \<open>
  \<open>content.replace(re, replacer)\<close> for a global \<open>re\<close> and
  \<open>replacer = (raw) => new Array(raw.length).fill(' ').join('')\<close>: the
  matches are found from left to right, each search starting where the
  previous match ended, and each match is replaced by as many spaces.  After
  an empty match the search moves on by one character.
\<close>

definition replacer :: "string \<Rightarrow> string" where
  "replacer raw = replicate (length raw) CHR '' ''"

function replace :: "rx \<Rightarrow> string \<Rightarrow> string" where
  "replace re [] = (case matchAt re [] of None \<Rightarrow> [] | Some raw \<Rightarrow> replacer raw)"
| "replace re (c # cs) =
     (case matchAt re (c # cs) of
        None \<Rightarrow> c # replace re cs
      | Some raw \<Rightarrow>
          if raw = [] then replacer raw @ c # replace re cs
          else replacer raw @ replace re (drop (length raw - 1) cs))"
  by pat_completeness auto
termination
  by (relation "measure (\<lambda>(re, s). length s)") auto

definition normalize :: "string \<Rightarrow> string" where
  "normalize content = replace selfClosingRx (replace quotedRx (replace commentRx content))"

subsection \<open>TagRegexp.exec\<close>

text \<open>
  The groups of a successful \<open>exec\<close>: which of the two took part, with its
  text.  A group that takes part captures at least one character, so
  \<open>if (startName) \<dots> else if (endName)\<close> in the source distinguishes
  exactly the two constructors.
\<close>

datatype tagMatch = StartName string | EndName string

text \<open>The match of \<open>TagRegexp\<close> at the start of \<open>s\<close>: the group and the length of the match.\<close>

definition tagAt :: "string \<Rightarrow> (tagMatch \<times> nat) option" where
  "tagAt s =
     (case matchAt startTagRx s of
        Some raw \<Rightarrow> Some (StartName (drop 1 raw), length raw)
      | None \<Rightarrow>
          (case matchAt endTagRx s of
             Some raw \<Rightarrow> Some (EndName (take (length raw - 3) (drop 2 raw)), length raw)
           | None \<Rightarrow> None))"

text \<open>
  \<open>TagRegexp.exec(content)\<close> with \<open>TagRegexp.lastIndex = i\<close>: the first
  match at or after \<open>i\<close>, as \<open>(mat.index, groups, new lastIndex)\<close>, or
  \<open>None\<close> for \<open>null\<close>.
\<close>

function exec :: "string \<Rightarrow> nat \<Rightarrow> (nat \<times> tagMatch \<times> nat) option" where
  "exec content i =
     (if length content < i then None
      else case tagAt (drop i content) of
             Some (m, n) \<Rightarrow> Some (i, m, i + n)
           | None \<Rightarrow> if i = length content then None else exec content (Suc i))"
  by pat_completeness auto
termination
  by (relation "measure (\<lambda>(content, i). length content - i)") auto

text \<open>Every match of \<open>TagRegexp\<close> consumes at least its \<open><\<close>, so \<open>exec\<close> moves on.\<close>

lemma ends_length: "t \<in> set (ends r s) \<Longrightarrow> length t \<le> length s"
proof (induction r s arbitrary: t rule: ends.induct)
  case (1 c s)
  then show ?case by (auto split: list.splits if_splits)
next
  case (2 P s)
  then show ?case by (auto split: list.splits if_splits)
next
  case (3 a b s)
  from "3.prems" obtain u where u: "u \<in> set (ends a s)" and t: "t \<in> set (ends b u)"
    by auto
  from "3.IH"(1) [OF u] "3.IH"(2) [OF u t] show ?case by simp
next
  case (4 a b s)
  then show ?case by auto
next
  case (5 a s)
  from "5.prems" consider "t = s"
    | u where "u \<in> set (ends a s)" "length u < length s" "t \<in> set (ends (Star a) u)"
    by (subst (asm) ends.simps(5)) (auto split: if_splits)
  then show ?case
  proof cases
    case 1
    then show ?thesis by simp
  next
    case (2 u)
    from "5.IH"(2) [OF 2] 2(2) show ?thesis by simp
  qed
next
  case (6 a s)
  from "6.prems" consider "t = s"
    | u where "u \<in> set (ends a s)" "length u < length s" "t \<in> set (ends (LazyStar a) u)"
    by (subst (asm) ends.simps(6)) (auto split: if_splits)
  then show ?case
  proof cases
    case 1
    then show ?thesis by simp
  next
    case (2 u)
    from "6.IH"(2) [OF 2] 2(2) show ?thesis by simp
  qed
qed

lemma ends_Lit_first:
  assumes "t \<in> set (ends (Seq (Lit c) r) s)"
  shows "length t < length s"
proof -
  from assms obtain s' where s: "s = c # s'" and t: "t \<in> set (ends r s')"
    by (auto split: list.splits if_splits)
  from ends_length [OF t] s show ?thesis by simp
qed

lemma matchAt_Lit_first:
  assumes "matchAt (Seq (Lit c) r) s = Some raw"
  shows "0 < length raw" and "length raw \<le> length s"
proof -
  from assms obtain t ts where e: "ends (Seq (Lit c) r) s = t # ts"
    and raw: "raw = take (length s - length t) s"
    by (auto simp: matchAt_def split: list.splits)
  from e have "t \<in> set (ends (Seq (Lit c) r) s)" by simp
  from ends_Lit_first [OF this] raw show "0 < length raw" by simp
  from raw show "length raw \<le> length s" by simp
qed

lemma tagAt_length:
  assumes "tagAt s = Some (m, n)"
  shows "0 < n" and "n \<le> length s"
  using assms matchAt_Lit_first [of "CHR ''<''" _ s]
  by (auto simp: tagAt_def startTagRx_def endTagRx_def split: option.splits)

lemma exec_bounds:
  "exec content i = Some (index, m, lastIndex) \<Longrightarrow>
   i \<le> index \<and> index < lastIndex \<and> lastIndex \<le> length content"
proof (induction content i rule: exec.induct)
  case (1 content i)
  show ?case
  proof (cases "tagAt (drop i content)")
    case None
    with "1.prems" have le: "\<not> length content < i" and ne: "i \<noteq> length content"
      and ex: "exec content (Suc i) = Some (index, m, lastIndex)"
      by (auto simp: exec.simps [of content i] split: if_splits)
    from "1.IH" [OF le None ne ex] show ?thesis by simp
  next
    case (Some p)
    obtain m' n where p: "p = (m', n)" by (cases p)
    from "1.prems" Some p have le: "\<not> length content < i"
      and eq: "index = i" "lastIndex = i + n"
      by (auto simp: exec.simps [of content i] split: if_splits)
    from tagAt_length [of "drop i content" m' n] Some p le eq show ?thesis by simp
  qed
qed

declare exec.simps [simp del]

subsection \<open>findMatchedEndTag\<close>

text \<open>
  The \<open>while\<close> loop, with \<open>TagRegexp.lastIndex\<close> and the stack (its top is the
  head of the list) as arguments.  \<open>stack.pop()\<close> is \<open>undefined\<close> exactly on
  the empty stack, since only captured names, which are not empty, are pushed
  (\<open>exec_name_not_empty\<close> below); this is the test \<open>!last\<close>, where
  \<open>last\<close> is \<open>popped\<close> here.  \<open>break\<close> leads to the final \<open>return\<close> of
  \<open>undefined\<close>, which is \<open>None\<close>.
\<close>

function findMatchedEndTag_loop :: "string \<Rightarrow> string \<Rightarrow> nat \<Rightarrow> string list \<Rightarrow> nat option" where
  "findMatchedEndTag_loop name nextContent lastIndex stack =
     (case exec nextContent lastIndex of
        None \<Rightarrow> None
      | Some (index, StartName startName, lastIndex') \<Rightarrow>
          findMatchedEndTag_loop name nextContent lastIndex' (startName # stack)
      | Some (index, EndName endName, lastIndex') \<Rightarrow>
          (case stack of
             [] \<Rightarrow>
               if endName = name then Some index
               else findMatchedEndTag_loop name nextContent lastIndex' []
           | popped # stack' \<Rightarrow>
               if popped \<noteq> endName then None
               else findMatchedEndTag_loop name nextContent lastIndex' stack'))"
  by pat_completeness auto
termination
proof (relation "measure (\<lambda>(name, nextContent, lastIndex, stack). Suc (length nextContent) - lastIndex)")
qed (use exec_bounds in \<open>auto dest!: exec_bounds\<close>)

declare findMatchedEndTag_loop.simps [simp del]

definition findMatchedEndTag :: "string \<Rightarrow> string \<Rightarrow> nat option" where
  "findMatchedEndTag name nextContent = findMatchedEndTag_loop name nextContent 0 []"

subsection \<open>findMatchedStartTag\<close>

text \<open>
  The loop returns the stack it ends with, whether \<open>exec\<close> returned \<open>null\<close> or
  a \<open>break\<close> was taken; in both \<open>break\<close> branches the popped entry is already
  gone.  The function then returns the offset in the top entry, if there is one.
\<close>

function findMatchedStartTag_loop :: "string \<Rightarrow> string \<Rightarrow> nat \<Rightarrow> (string \<times> nat) list \<Rightarrow> (string \<times> nat) list" where
  "findMatchedStartTag_loop name prevContent lastIndex stack =
     (case exec prevContent lastIndex of
        None \<Rightarrow> stack
      | Some (index, StartName startName, lastIndex') \<Rightarrow>
          findMatchedStartTag_loop name prevContent lastIndex' ((startName, index) # stack)
      | Some (index, EndName endName, lastIndex') \<Rightarrow>
          (case stack of
             [] \<Rightarrow> []
           | popped # stack' \<Rightarrow>
               if fst popped \<noteq> endName then stack'
               else findMatchedStartTag_loop name prevContent lastIndex' stack'))"
  by pat_completeness auto
termination
proof (relation "measure (\<lambda>(name, prevContent, lastIndex, stack). Suc (length prevContent) - lastIndex)")
qed (use exec_bounds in \<open>auto dest!: exec_bounds\<close>)

declare findMatchedStartTag_loop.simps [simp del]

definition findMatchedStartTag :: "string \<Rightarrow> string \<Rightarrow> nat option" where
  "findMatchedStartTag name prevContent =
     (case findMatchedStartTag_loop name prevContent 0 [] of
        [] \<Rightarrow> None
      | l # _ \<Rightarrow> Some (snd l))"

subsection \<open>The host editor's document\<close>

text \<open>
  \<open>Position\<close>, \<open>Range\<close> and \<open>TextDocument\<close> belong to the host editor and
  are not part of the repository; the specification lists them as consumed
  interfaces (section 6) without their details.  The source calls them, so
  they are modelled here, each after the item of section 6 it stands for and
  with the host's behaviour at the edges written out: a document is its lines
  (without their terminators) and the line terminator that joins them, and has
  at least one line.
\<close>

datatype position = Position (line: nat) (character: nat)

datatype range = Range (range_start: position) (range_end: position)

record textDocument =
  lines :: "string list"
  eol :: string

datatype error = IllegalArgument

text \<open>
  Modelled from the spec: the host editor's \<open>Position\<close> (section 6,
  line/column positions), which is not part of the repository.  Line and
  character are zero-based; the host's constructor raises an illegal-argument
  exception for a negative line or character.  This is the only exception the
  modelled code can meet.
\<close>

definition newPosition :: "int \<Rightarrow> int \<Rightarrow> error + position" where
  "newPosition l c =
     (if l < 0 then Inl IllegalArgument
      else if c < 0 then Inl IllegalArgument
      else Inr (Position (nat l) (nat c)))"

definition isBefore :: "position \<Rightarrow> position \<Rightarrow> bool" where
  "isBefore a b \<longleftrightarrow> line a < line b \<or> (line a = line b \<and> character a < character b)"

text \<open>
  Modelled from the spec: a range of the host editor (section 6).  The host's
  constructor takes two positions; the start of the range is the earlier one.
\<close>

definition newRange :: "position \<Rightarrow> position \<Rightarrow> range" where
  "newRange a b = (if isBefore a b then Range a b else Range b a)"

text \<open>
  Modelled from the spec: line/column positions of the host editor (section 6).
  The host clamps a position to the document before it uses it: a line past
  the last one becomes the end of the last line, a column past the end of its
  line becomes the end of the line.
\<close>

definition validatePosition :: "textDocument \<Rightarrow> position \<Rightarrow> position" where
  "validatePosition doc p =
     (if length (lines doc) \<le> line p
      then Position (length (lines doc) - 1) (length (last (lines doc)))
      else Position (line p) (min (character p) (length (lines doc ! line p))))"

fun joinLines :: "string \<Rightarrow> string list \<Rightarrow> string" where
  "joinLines e [] = []"
| "joinLines e [l] = l"
| "joinLines e (l # ls) = l @ e @ joinLines e ls"

text \<open>Modelled from the spec: \<open>getText() -> full document text\<close> (section 6).\<close>

definition getText :: "textDocument \<Rightarrow> string" where
  "getText doc = joinLines (eol doc) (lines doc)"

text \<open>Modelled from the spec: \<open>getText(range) -> substring\<close> (section 6).\<close>

definition getTextIn :: "textDocument \<Rightarrow> range \<Rightarrow> string" where
  "getTextIn doc r =
     (let s = validatePosition doc (range_start r);
          e = validatePosition doc (range_end r)
      in if line s = line e
         then take (character e - character s) (drop (character s) (lines doc ! line s))
         else joinLines (eol doc)
                (drop (character s) (lines doc ! line s) #
                 take (line e - line s - 1) (drop (Suc (line s)) (lines doc)) @
                 [take (character e) (lines doc ! line e)]))"

text \<open>
  Modelled from the spec: \<open>offsetAt(position)\<close> (section 6), the offset of the
  clamped position in the full text.
\<close>

definition offsetAt :: "textDocument \<Rightarrow> position \<Rightarrow> nat" where
  "offsetAt doc p =
     (let q = validatePosition doc p
      in (\<Sum>l \<leftarrow> take (line q) (lines doc). length l + length (eol doc)) + character q)"

text \<open>
  Modelled from the spec: \<open>positionAt(offset)\<close> (section 6).  An offset inside a
  line terminator gives the end of its line, an offset past the text the end of
  the last line.
\<close>

fun positionAt_from :: "string list \<Rightarrow> nat \<Rightarrow> nat \<Rightarrow> nat \<Rightarrow> position" where
  "positionAt_from [] e n offset = Position n 0"
| "positionAt_from [l] e n offset = Position n (min offset (length l))"
| "positionAt_from (l # ls) e n offset =
     (if offset < length l + e then Position n (min offset (length l))
      else positionAt_from ls e (Suc n) (offset - (length l + e)))"

definition positionAt :: "textDocument \<Rightarrow> nat \<Rightarrow> position" where
  "positionAt doc offset = positionAt_from (lines doc) (length (eol doc)) 0 offset"

text \<open>
  Modelled from the spec: \<open>wordRangeAt(position, pattern) -> range | none\<close>
  (section 6) for the pattern \<open>/[\w:-]+/\<close>: the match of the pattern in
  the line that contains or touches the clamped position.  A match of this
  pattern is a maximal run of name characters (\<open>matchAt_wordRx\<close> below),
  so the range is computed from the runs before and after the position.
\<close>

definition getWordRangeAtPosition :: "textDocument \<Rightarrow> position \<Rightarrow> range option" where
  "getWordRangeAtPosition doc p =
     (let q = validatePosition doc p;
          text = lines doc ! line q;
          s = character q - length (takeWhile isNameChar (rev (take (character q) text)));
          e = character q + length (takeWhile isNameChar (drop (character q) text))
      in if s = e then None else Some (Range (Position (line q) s) (Position (line q) e)))"

subsection \<open>next and prev\<close>

definition "next" :: "textDocument \<Rightarrow> position \<Rightarrow> nat \<Rightarrow> error + string" where
  "next doc pos len =
     (case newPosition (int (line pos)) (int (character pos)) of
        Inl err \<Rightarrow> Inl err
      | Inr start \<Rightarrow>
          (case newPosition (int (line pos)) (int (character pos) + int len) of
             Inl err \<Rightarrow> Inl err
           | Inr end' \<Rightarrow> Inr (getTextIn doc (newRange start end'))))"

definition prev :: "textDocument \<Rightarrow> position \<Rightarrow> nat \<Rightarrow> error + string" where
  "prev doc pos len =
     (case newPosition (int (line pos)) (int (character pos) - int len) of
        Inl err \<Rightarrow> Inl err
      | Inr start \<Rightarrow>
          (case newPosition (int (line pos)) (int (character pos)) of
             Inl err \<Rightarrow> Inl err
           | Inr end' \<Rightarrow> Inr (getTextIn doc (newRange start end'))))"

subsection \<open>provideDocumentHighlights\<close>

text \<open>\<open>re.test(text)\<close> for the expression anchored with \<open>^\<close>.\<close>

definition test :: "rx \<Rightarrow> string \<Rightarrow> bool" where
  "test re text \<longleftrightarrow> matchAt re text \<noteq> None"

text \<open>
  The result is the list of the highlighted ranges, or the exception that left
  the method.  \<open>content.slice(i)\<close> is \<open>drop i content\<close> and
  \<open>content.slice(0, i)\<close> is \<open>take i content\<close>; in the end-tag branch the two
  characters before the anchor are \<open></\<close>, so the subtraction
  \<open>doc.offsetAt(range.start) - 2\<close> does not go below zero.  The variable
  \<open>range\<close> of the source is \<open>rng\<close>.
\<close>

definition provideDocumentHighlights :: "textDocument \<Rightarrow> position \<Rightarrow> error + range list" where
  "provideDocumentHighlights doc pos =
     (case getWordRangeAtPosition doc pos of
        None \<Rightarrow> Inr []
      | Some rng \<Rightarrow>
          let content = getText doc;
              name = getTextIn doc rng;
              res = [rng]
          in case prev doc (range_start rng) 1 of
               Inl err \<Rightarrow> Inl err
             | Inr before1 \<Rightarrow>
                 if before1 = ''<'' then
                   let nextStartIndex = offsetAt doc (range_end rng);
                       nextText = normalize (drop nextStartIndex content)
                   in if \<not> test selfCloseTestRx nextText then
                        (case findMatchedEndTag name nextText of
                           Some nextEndIndex \<Rightarrow>
                             Inr (res @
                               [newRange (positionAt doc (nextStartIndex + nextEndIndex + 2))
                                  (positionAt doc (nextStartIndex + nextEndIndex + 2 + length name))])
                         | None \<Rightarrow> Inr res)
                      else Inr res
                 else
                   (case prev doc (range_start rng) 2 of
                      Inl err \<Rightarrow> Inl err
                    | Inr before2 \<Rightarrow>
                        if before2 = ''</'' then
                          (case next doc (range_end rng) 1 of
                             Inl err \<Rightarrow> Inl err
                           | Inr after1 \<Rightarrow>
                               if after1 = ''>'' then
                                 let prevEndIndex = offsetAt doc (range_start rng) - 2;
                                     prevText = normalize (take prevEndIndex content)
                                 in case findMatchedStartTag name prevText of
                                      Some prevStartIndex \<Rightarrow>
                                        Inr (res @
                                          [newRange (positionAt doc (prevStartIndex + 1))
                                             (positionAt doc (prevStartIndex + 1 + length name))])
                                    | None \<Rightarrow> Inr res
                               else Inr res)
                        else Inr res))"

subsection \<open>Notions used in the statements\<close>

text \<open>
  The remainders after \<open>Star (Cls P)\<close>: the longest run of \<open>P\<close> characters
  first, then one character less at a time.  It is not part of the model; it
  describes what \<open>ends\<close> computes for a starred character class.
\<close>

fun greedyEnds :: "(char \<Rightarrow> bool) \<Rightarrow> string \<Rightarrow> string list" where
  "greedyEnds P [] = [[]]"
| "greedyEnds P (x # t) = (if P x then greedyEnds P t @ [x # t] else [x # t])"

text \<open>A tag name as \<open>[\w:-]+\<close> matches it: not empty, of name characters only.\<close>

definition validName :: "string \<Rightarrow> bool" where
  "validName n \<longleftrightarrow> n \<noteq> [] \<and> list_all isNameChar n"

text \<open>
  A character that none of the patterns of \<open>normalize\<close> can start with:
  not \<open><\<close> and not a quote.
\<close>

definition inert :: "char \<Rightarrow> bool" where
  "inert c \<longleftrightarrow> c \<noteq> CHR ''<'' \<and> c \<noteq> CHR 0x22 \<and> c \<noteq> CHR 0x27"

text \<open>Whether a text contains \<open><!--\<close>, and whether it contains \<open>-->\<close>.\<close>

fun hasCommentOpen :: "string \<Rightarrow> bool" where
  "hasCommentOpen [] = False"
| "hasCommentOpen (c # s) \<longleftrightarrow> take 4 (c # s) = ''<!--'' \<or> hasCommentOpen s"

fun hasCommentClose :: "string \<Rightarrow> bool" where
  "hasCommentClose [] = False"
| "hasCommentClose (c # s) \<longleftrightarrow> take 3 (c # s) = ''-->'' \<or> hasCommentClose s"

text \<open>
  The text of a tag between its name and its closing \<open>>\<close> or \<open>/>\<close>, in
  pieces: a character outside quotes (white space, the characters of an
  attribute name, \<open>=\<close>, a line break), or a value in double or in single
  quotes.  A character outside quotes is any but \<open><\<close>, \<open>>\<close> and the quotes.
  A value holds any characters but its own quote (the other quote, \<open><\<close>,
  \<open>>\<close>, \<open>/\<close> and line breaks may occur), as long as \<open><!--\<close> does not
  occur in it.
\<close>

datatype piece = Plain char | DQuoted string | SQuoted string

fun renderPiece :: "piece \<Rightarrow> string" where
  "renderPiece (Plain c) = [c]"
| "renderPiece (DQuoted v) = [CHR 0x22] @ v @ [CHR 0x22]"
| "renderPiece (SQuoted v) = [CHR 0x27] @ v @ [CHR 0x27]"

definition renderAttrs :: "piece list \<Rightarrow> string" where
  "renderAttrs a = concat (map renderPiece a)"

fun pieceOk :: "piece \<Rightarrow> bool" where
  "pieceOk (Plain c) \<longleftrightarrow> inert c \<and> c \<noteq> CHR ''>''"
| "pieceOk (DQuoted v) \<longleftrightarrow> CHR 0x22 \<notin> set v \<and> \<not> hasCommentOpen v"
| "pieceOk (SQuoted v) \<longleftrightarrow> CHR 0x27 \<notin> set v \<and> \<not> hasCommentOpen v"

text \<open>
  The pieces of a start tag \<open><name \<dots>>\<close>: what follows the name does not go
  on with a name character, and the last piece is not a \<open>/\<close> outside quotes
  (the tag would end in \<open>/>\<close>).  The pieces of a self-closing tag
  \<open><name \<dots>/>\<close>: the first piece is white space.
\<close>

fun delimited :: "piece list \<Rightarrow> bool" where
  "delimited (Plain c # a) \<longleftrightarrow> \<not> isNameChar c"
| "delimited a \<longleftrightarrow> True"

definition attrsOk :: "piece list \<Rightarrow> bool" where
  "attrsOk a \<longleftrightarrow> list_all pieceOk a \<and> delimited a \<and> (a = [] \<or> last a \<noteq> Plain CHR ''/'')"

fun spaced :: "piece list \<Rightarrow> bool" where
  "spaced (Plain c # a) \<longleftrightarrow> isSpace c"
| "spaced a \<longleftrightarrow> False"

text \<open>
  Markup: a character of text (anything but \<open><\<close> and the two quotes, so line
  breaks too), a quoted string in the text (as a value in a tag), a \<open><\<close> in
  the text together with the character after it (which is not a name
  character, \<open>/\<close>, \<open>!\<close>, \<open><\<close> or a quote, as in \<open>a < b\<close>), a comment
  \<open><!--\<close> \<dots> \<open>-->\<close> on one line, a self-closing tag \<open><name \<dots>/>\<close> with
  white space after its name, or an element \<open><name \<dots>>\<close> \<dots> \<open></name>\<close>
  around such markup.  \<open>render\<close> writes it out.
\<close>

datatype wxml =
    Text char
  | Quoted piece
  | Less char
  | Comment string
  | Void string "piece list"
  | Element string "piece list" "wxml list"

fun render :: "wxml \<Rightarrow> string" where
  "render (Text c) = [c]"
| "render (Quoted p) = renderPiece p"
| "render (Less c) = [CHR ''<'', c]"
| "render (Comment b) = ''<!--'' @ b @ ''-->''"
| "render (Void n a) = ''<'' @ n @ renderAttrs a @ ''/>''"
| "render (Element n a kids) =
     ''<'' @ n @ renderAttrs a @ ''>'' @ concat (map render kids) @ ''</'' @ n @ ''>''"

definition renderAll :: "wxml list \<Rightarrow> string" where
  "renderAll kids = concat (map render kids)"

fun wellFormed :: "wxml \<Rightarrow> bool" where
  "wellFormed (Text c) \<longleftrightarrow> inert c"
| "wellFormed (Quoted p) \<longleftrightarrow> pieceOk p"
| "wellFormed (Less c) \<longleftrightarrow> inert c \<and> \<not> isNameChar c \<and> c \<noteq> CHR ''/'' \<and> c \<noteq> CHR ''!''"
| "wellFormed (Comment b) \<longleftrightarrow> list_all isDot b \<and> \<not> hasCommentClose b"
| "wellFormed (Void n a) \<longleftrightarrow> validName n \<and> list_all pieceOk a \<and> spaced a"
| "wellFormed (Element n a kids) \<longleftrightarrow> validName n \<and> attrsOk a \<and> list_all wellFormed kids"

text \<open>
  The markup after the first \<open>k\<close> of the three replacements of \<open>normalize\<close>:
  the first blanks the comments, the second the quoted values, the third the
  self-closing tags.
\<close>

fun pieceAt :: "nat \<Rightarrow> piece \<Rightarrow> string" where
  "pieceAt k (Plain c) = [c]"
| "pieceAt k (DQuoted v) = (if 2 \<le> k then replicate (length v + 2) CHR '' '' else [CHR 0x22] @ v @ [CHR 0x22])"
| "pieceAt k (SQuoted v) = (if 2 \<le> k then replicate (length v + 2) CHR '' '' else [CHR 0x27] @ v @ [CHR 0x27])"

definition attrsAt :: "nat \<Rightarrow> piece list \<Rightarrow> string" where
  "attrsAt k a = concat (map (pieceAt k) a)"

fun renderAt :: "nat \<Rightarrow> wxml \<Rightarrow> string" where
  "renderAt k (Text c) = [c]"
| "renderAt k (Quoted p) = pieceAt k p"
| "renderAt k (Less c) = [CHR ''<'', c]"
| "renderAt k (Comment b) =
     (if 1 \<le> k then replicate (length b + 7) CHR '' '' else ''<!--'' @ b @ ''-->'')"
| "renderAt k (Void n a) =
     (if 3 \<le> k then replicate (length n + length (attrsAt k a) + 3) CHR '' ''
      else ''<'' @ n @ attrsAt k a @ ''/>'')"
| "renderAt k (Element n a kids) =
     ''<'' @ n @ attrsAt k a @ ''>'' @ concat (map (renderAt k) kids) @ ''</'' @ n @ ''>''"

definition renderAllAt :: "nat \<Rightarrow> wxml list \<Rightarrow> string" where
  "renderAllAt k kids = concat (map (renderAt k) kids)"

text \<open>The three patterns of \<open>normalize\<close> in the order in which they are applied.\<close>

fun rxOf :: "nat \<Rightarrow> rx" where
  "rxOf 0 = commentRx"
| "rxOf (Suc 0) = quotedRx"
| "rxOf k = selfClosingRx"

text \<open>The three patterns that \<open>normalize\<close> replaces.\<close>

definition passRx :: "rx \<Rightarrow> bool" where
  "passRx re \<longleftrightarrow> re = commentRx \<or> re = quotedRx \<or> re = selfClosingRx"

text \<open>
  A loop \<open>L content lastIndex stack\<close> skips a segment when, started at the
  beginning of that segment with any stack, it comes to the end of the segment
  with the same stack.
\<close>

definition skips :: "(string \<Rightarrow> nat \<Rightarrow> 's \<Rightarrow> 'r) \<Rightarrow> string \<Rightarrow> bool" where
  "skips L seg \<longleftrightarrow>
     (\<forall>pre rest st. L (pre @ seg @ rest) (length pre) st =
                     L (pre @ seg @ rest) (length pre + length seg) st)"

text \<open>The offset at which line \<open>l\<close> starts when every line is followed by \<open>e\<close> characters.\<close>

definition lineStart :: "nat \<Rightarrow> string list \<Rightarrow> nat \<Rightarrow> nat" where
  "lineStart e ls l = (\<Sum>x \<leftarrow> take l ls. length x + e)"

text \<open>The line terminator of a document is a line feed, or carriage return and line feed.\<close>

definition eolOk :: "textDocument \<Rightarrow> bool" where
  "eolOk doc \<longleftrightarrow> eol doc = [CHR 0x0A] \<or> eol doc = [CHR 0x0D, CHR 0x0A]"

text \<open>The range of \<open>len\<close> characters that starts at a text offset.\<close>

definition nameRange :: "textDocument \<Rightarrow> nat \<Rightarrow> nat \<Rightarrow> range" where
  "nameRange doc offset len = Range (positionAt doc offset) (positionAt doc (offset + len))"

text \<open>
  An element inside a document: the text before it consists of start tags that
  are still open and of complete nodes; \<open>opened\<close> is the stack the backward
  matcher holds after scanning that text from offset \<open>p\<close>.
\<close>

datatype item = Open string "piece list" | Node wxml

fun renderItem :: "item \<Rightarrow> string" where
  "renderItem (Open m a) = ''<'' @ m @ renderAttrs a @ ''>''"
| "renderItem (Node x) = render x"

definition renderItems :: "item list \<Rightarrow> string" where
  "renderItems ctx = concat (map renderItem ctx)"

fun itemOk :: "item \<Rightarrow> bool" where
  "itemOk (Open m a) \<longleftrightarrow> validName m \<and> attrsOk a"
| "itemOk (Node x) \<longleftrightarrow> wellFormed x"

fun itemAt :: "nat \<Rightarrow> item \<Rightarrow> string" where
  "itemAt k (Open m a) = ''<'' @ m @ attrsAt k a @ ''>''"
| "itemAt k (Node x) = renderAt k x"

definition itemsAt :: "nat \<Rightarrow> item list \<Rightarrow> string" where
  "itemsAt k ctx = concat (map (itemAt k) ctx)"

fun opened :: "nat \<Rightarrow> item list \<Rightarrow> (string \<times> nat) list" where
  "opened p [] = []"
| "opened p (Open m a # ctx) = opened (p + length (renderItem (Open m a))) ctx @ [(m, p)]"
| "opened p (Node x # ctx) = opened (p + length (render x)) ctx"

subsection \<open>Properties of the matcher and of replace\<close>

lemma matchAt_length: "matchAt re s = Some raw \<Longrightarrow> length raw \<le> length s"
  by (auto simp: matchAt_def split: list.splits)

lemma length_replace: "length (replace re s) = length s"
proof (induction re s rule: replace.induct)
  case (1 re)
  show ?case
    using matchAt_length [of re "[]"] by (auto simp: replacer_def split: option.splits)
next
  case (2 re c cs)
  show ?case
  proof (cases "matchAt re (c # cs)")
    case None
    with 2 show ?thesis by simp
  next
    case (Some raw)
    show ?thesis
    proof (cases "raw = []")
      case True
      with 2 Some show ?thesis by (simp add: replacer_def)
    next
      case False
      then have "0 < length raw" by simp
      with "2.IH"(3) [OF Some False] matchAt_length [OF Some] Some False show ?thesis
        by (simp add: replacer_def)
    qed
  qed
qed

lemma replace_blank_or_same:
  "list_all2 (\<lambda>a b. b = a \<or> b = CHR '' '') s (replace re s)"
proof (induction re s rule: replace.induct)
  case (1 re)
  show ?case
    using matchAt_length [of re "[]"] by (auto simp: replacer_def split: option.splits)
next
  case (2 re c cs)
  show ?case
  proof (cases "matchAt re (c # cs)")
    case None
    with 2 show ?thesis by simp
  next
    case (Some raw)
    show ?thesis
    proof (cases "raw = []")
      case True
      with 2 Some show ?thesis by (simp add: replacer_def)
    next
      case False
      from matchAt_length [OF Some] have le: "length raw \<le> Suc (length cs)" by simp
      have split: "c # cs = take (length raw) (c # cs) @ drop (length raw - 1) cs"
        using False by (cases raw) simp_all
      have blank: "list_all2 (\<lambda>a b. b = a \<or> b = CHR '' '')
                     (take (length raw) (c # cs)) (replicate (length raw) CHR '' '')"
        using le by (auto simp: list_all2_conv_all_nth)
      from "2.IH"(3) [OF Some False]
      have rest: "list_all2 (\<lambda>a b. b = a \<or> b = CHR '' '')
                    (drop (length raw - 1) cs) (replace re (drop (length raw - 1) cs))" .
      have "list_all2 (\<lambda>a b. b = a \<or> b = CHR '' '')
              (take (length raw) (c # cs) @ drop (length raw - 1) cs)
              (replicate (length raw) CHR '' '' @ replace re (drop (length raw - 1) cs))"
        using blank rest by (rule list_all2_appendI)
      with split Some False show ?thesis by (simp add: replacer_def)
    qed
  qed
qed

lemma blank_or_same_trans:
  "list_all2 (\<lambda>a b. b = a \<or> b = CHR '' '') xs ys \<Longrightarrow>
   list_all2 (\<lambda>a b. b = a \<or> b = CHR '' '') ys zs \<Longrightarrow>
   list_all2 (\<lambda>a b. b = a \<or> b = CHR '' '') xs zs"
  unfolding list_all2_conv_all_nth by metis

subsection \<open>What the tag patterns match\<close>

lemma ends_Star_Cls: "ends (Star (Cls P)) s = greedyEnds P s"
proof (induction s)
  case Nil
  show ?case by (subst ends.simps(5)) simp
next
  case (Cons x t)
  then show ?case by (subst ends.simps(5)) simp
qed

lemma ends_Plus_Cls:
  "ends (Plus (Cls P)) s = (case s of [] \<Rightarrow> [] | x # t \<Rightarrow> if P x then greedyEnds P t else [])"
  by (simp add: Plus_def ends_Star_Cls split: list.splits)

lemma greedyEnds_first: "\<exists>rest. greedyEnds P s = dropWhile P s # rest"
  by (induction s) auto

lemma concat_greedyEnds:
  assumes "\<And>x t. P x \<Longrightarrow> f (x # t) = []"
  shows "concat (map f (greedyEnds P s)) = f (dropWhile P s)"
  using assms by (induction s) auto

lemma length_takeWhile_dropWhile: "length (takeWhile P s) + length (dropWhile P s) = length s"
  by (induction s) auto

lemma length_dropWhile_takeWhile: "length s - length (dropWhile P s) = length (takeWhile P s)"
  using length_takeWhile_dropWhile [of P s] by simp

lemma take_length_takeWhile: "take (length (takeWhile P s)) s = takeWhile P s"
  by (induction s) auto

lemma isNameChar_simps [simp]:
  "\<not> isNameChar CHR ''<''" "\<not> isNameChar CHR ''>''" "\<not> isNameChar CHR ''/''"
  "\<not> isNameChar CHR ''!''" "\<not> isNameChar CHR 0x22" "\<not> isNameChar CHR 0x27"
  "\<not> isNameChar CHR 0x0A" "\<not> isNameChar CHR 0x0D"
  by (simp_all add: isNameChar_def)

lemma isNameChar_not_space: "isNameChar c \<Longrightarrow> \<not> isSpace c"
  by (auto simp: isNameChar_def isSpace_def)

lemma matchAt_startTagRx:
  "matchAt startTagRx s =
     (case s of
        [] \<Rightarrow> None
      | x # r \<Rightarrow>
          if x = CHR ''<'' \<and> takeWhile isNameChar r \<noteq> []
          then Some (x # takeWhile isNameChar r) else None)"
proof (cases s)
  case Nil
  then show ?thesis by (simp add: matchAt_def startTagRx_def)
next
  case (Cons x r)
  show ?thesis
  proof (cases r)
    case Nil
    with Cons show ?thesis by (simp add: matchAt_def startTagRx_def ends_Plus_Cls)
  next
    case (Cons y t)
    obtain rest where g: "greedyEnds isNameChar t = dropWhile isNameChar t # rest"
      using greedyEnds_first by blast
    have "Suc (Suc (length t)) - length (dropWhile isNameChar t) =
          Suc (Suc (length (takeWhile isNameChar t)))"
      using length_dropWhile_takeWhile [of t isNameChar]
        length_dropWhile_le [of isNameChar t] by simp
    with \<open>s = x # r\<close> Cons g show ?thesis
      by (simp add: matchAt_def startTagRx_def ends_Plus_Cls take_length_takeWhile)
  qed
qed

text \<open>A match of the word pattern is a maximal run of name characters.\<close>

lemma matchAt_wordRx:
  "matchAt wordRx s =
     (if takeWhile isNameChar s = [] then None else Some (takeWhile isNameChar s))"
proof (cases s)
  case Nil
  then show ?thesis by (simp add: matchAt_def wordRx_def ends_Plus_Cls)
next
  case (Cons x t)
  obtain rest where g: "greedyEnds isNameChar t = dropWhile isNameChar t # rest"
    using greedyEnds_first by blast
  have "Suc (length t) - length (dropWhile isNameChar t) = Suc (length (takeWhile isNameChar t))"
    using length_dropWhile_takeWhile [of t isNameChar] length_dropWhile_le [of isNameChar t]
    by simp
  with Cons g show ?thesis
    by (simp add: matchAt_def wordRx_def ends_Plus_Cls take_length_takeWhile)
qed

lemma ends_endTagRx:
  "ends endTagRx s =
     (case s of
        x # y # z # t \<Rightarrow>
          if x = CHR ''<'' \<and> y = CHR ''/'' \<and> isNameChar z
          then (case dropWhile isNameChar t of
                  [] \<Rightarrow> []
                | c # w \<Rightarrow> if c = CHR ''>'' then [w] else [])
          else []
      | _ \<Rightarrow> [])"
proof -
  have f: "concat (map (ends (Lit CHR ''>'')) (greedyEnds isNameChar t)) =
           ends (Lit CHR ''>'') (dropWhile isNameChar t)" for t
    by (rule concat_greedyEnds) auto
  show ?thesis
    by (auto simp: endTagRx_def ends_Plus_Cls f split: list.splits)
qed

lemma matchAt_endTagRx:
  "matchAt endTagRx s =
     (case s of
        x # y # z # t \<Rightarrow>
          if x = CHR ''<'' \<and> y = CHR ''/'' \<and> isNameChar z
          then (case dropWhile isNameChar t of
                  [] \<Rightarrow> None
                | c # w \<Rightarrow>
                    if c = CHR ''>'' then Some (x # y # z # takeWhile isNameChar t @ [c])
                    else None)
          else None
      | _ \<Rightarrow> None)"
proof -
  have *: "take (Suc (Suc (Suc (length t))) - length w) (x # y # z # t) =
           x # y # z # takeWhile isNameChar t @ [c]"
    if "dropWhile isNameChar t = c # w" for x y z t c w
  proof -
    have t: "t = takeWhile isNameChar t @ c # w"
      using that takeWhile_dropWhile_id [of isNameChar t] by simp
    then have "length t = length (takeWhile isNameChar t) + Suc (length w)"
      by (metis length_append length_Cons)
    then have "Suc (Suc (Suc (length t))) - length w =
               Suc (Suc (Suc (Suc (length (takeWhile isNameChar t)))))" by simp
    moreover have "take (Suc (length (takeWhile isNameChar t))) t = takeWhile isNameChar t @ [c]"
      by (subst t) simp
    ultimately show ?thesis by simp
  qed
  have **: "\<not> Ball (set t) isNameChar" if "dropWhile isNameChar t = c # w" for t c w
    using that dropWhile_eq_Nil_conv [of isNameChar t] by auto
  show ?thesis
    unfolding matchAt_def ends_endTagRx
    by (auto simp: * dest: ** split: list.splits)
qed

lemma takeWhile_run:
  "list_all P n \<Longrightarrow> rest = [] \<or> \<not> P (hd rest) \<Longrightarrow> takeWhile P (n @ rest) = n"
  by (induction n) (auto simp: takeWhile_eq_Nil_iff)

lemma dropWhile_run:
  "list_all P n \<Longrightarrow> rest = [] \<or> \<not> P (hd rest) \<Longrightarrow> dropWhile P (n @ rest) = rest"
  by (induction n) (auto simp: dropWhile_eq_self_iff)

lemma tagAt_Nil [simp]: "tagAt [] = None"
  by (simp add: tagAt_def matchAt_startTagRx matchAt_endTagRx)

lemma tagAt_not_lt: "x \<noteq> CHR ''<'' \<Longrightarrow> tagAt (x # t) = None"
  by (simp add: tagAt_def matchAt_startTagRx matchAt_endTagRx split: list.splits)

lemma tagAt_open:
  assumes "validName n" and "rest = [] \<or> \<not> isNameChar (hd rest)"
  shows "tagAt (CHR ''<'' # n @ rest) = Some (StartName n, Suc (length n))"
  using assms takeWhile_run [of isNameChar n rest]
  by (simp add: tagAt_def matchAt_startTagRx validName_def)

lemma tagAt_close:
  assumes "validName n"
  shows "tagAt (CHR ''<'' # CHR ''/'' # n @ CHR ''>'' # rest) = Some (EndName n, length n + 3)"
proof -
  from assms obtain z n' where n: "n = z # n'" and z: "isNameChar z" and n': "list_all isNameChar n'"
    by (cases n) (auto simp: validName_def)
  have t: "takeWhile isNameChar (n' @ CHR ''>'' # rest) = n'"
    using n' by (intro takeWhile_run) auto
  have d: "dropWhile isNameChar (n' @ CHR ''>'' # rest) = CHR ''>'' # rest"
    using n' by (intro dropWhile_run) auto
  show ?thesis
    using z by (simp add: tagAt_def matchAt_startTagRx matchAt_endTagRx n t d)
qed

lemma tagAt_StartName:
  assumes "tagAt s = Some (StartName e, k)"
  shows "e \<noteq> [] \<and> k = Suc (length e) \<and> take k s = CHR ''<'' # e"
  using assms take_length_takeWhile [of isNameChar "tl s"]
  by (auto simp: tagAt_def matchAt_startTagRx matchAt_endTagRx
      split: list.splits if_splits option.splits)

lemma tagAt_EndName:
  assumes "tagAt s = Some (EndName e, k)"
  shows "e \<noteq> [] \<and> list_all isNameChar e \<and> k = length e + 3 \<and>
         take k s = CHR ''<'' # CHR ''/'' # e @ [CHR ''>'']"
proof -
  from assms obtain z t w where s: "s = CHR ''<'' # CHR ''/'' # z # t" and z: "isNameChar z"
    and d: "dropWhile isNameChar t = CHR ''>'' # w" and e: "e = z # takeWhile isNameChar t"
    by (auto simp: tagAt_def matchAt_startTagRx matchAt_endTagRx
        split: list.splits if_splits option.splits)
  from assms s z d have k: "k = length (takeWhile isNameChar t) + 4"
    by (auto simp: tagAt_def matchAt_startTagRx matchAt_endTagRx
        split: list.splits if_splits option.splits)
  have t: "t = takeWhile isNameChar t @ CHR ''>'' # w"
    using d takeWhile_dropWhile_id [of isNameChar t] by simp
  have "take (Suc (length (takeWhile isNameChar t))) t = takeWhile isNameChar t @ [CHR ''>'']"
    by (subst t) simp
  moreover have "list_all isNameChar (takeWhile isNameChar t)"
    by (simp add: list_all_iff) (meson set_takeWhileD)
  moreover have "k = Suc (Suc (Suc (Suc (length (takeWhile isNameChar t)))))"
    using k by simp
  ultimately show ?thesis using s z e by simp
qed

lemma exec_Nil_end [simp]: "exec content (length content) = None"
  by (simp add: exec.simps [of content])

lemma exec_at:
  assumes "tagAt s = Some (m, k)"
  shows "exec (pre @ s) (length pre) = Some (length pre, m, length pre + k)"
  using assms by (simp add: exec.simps [of "pre @ s"])

lemma exec_skip:
  assumes "\<forall>c\<in>set u. c \<noteq> CHR ''<''"
  shows "exec (pre @ u @ rest) (length pre) = exec (pre @ u @ rest) (length pre + length u)"
  using assms
proof (induction u arbitrary: pre)
  case Nil
  then show ?case by simp
next
  case (Cons c u)
  have "exec (pre @ (c # u) @ rest) (length pre) = exec (pre @ (c # u) @ rest) (Suc (length pre))"
    using Cons.prems by (simp add: exec.simps [of _ "length pre"] tagAt_not_lt)
  also have "\<dots> = exec ((pre @ [c]) @ u @ rest) (length (pre @ [c]))" by simp
  also have "\<dots> = exec ((pre @ [c]) @ u @ rest) (length (pre @ [c]) + length u)"
    using Cons.prems by (intro Cons.IH) simp
  finally show ?case by simp
qed

lemma exec_found:
  assumes "exec content i = Some (index, m, j)"
  shows "\<exists>k. tagAt (drop index content) = Some (m, k) \<and> j = index + k"
  using assms
proof (induction content i rule: exec.induct)
  case (1 content i)
  then show ?case
    by (auto simp: exec.simps [of content i] split: if_splits option.splits)
qed

subsection \<open>The two matcher loops, step by step\<close>

lemma exec_name_not_empty:
  assumes "exec content i = Some (index, m, j)"
  shows "m \<noteq> StartName [] \<and> m \<noteq> EndName []"
proof -
  from exec_found [OF assms] obtain k where k: "tagAt (drop index content) = Some (m, k)"
    by blast
  show ?thesis
  proof (cases m)
    case (StartName e)
    with tagAt_StartName [of "drop index content" e k] k show ?thesis by simp
  next
    case (EndName e)
    with tagAt_EndName [of "drop index content" e k] k show ?thesis by simp
  qed
qed

lemma findMatchedStartTag_loop_name:
  "findMatchedStartTag_loop n1 t i st = findMatchedStartTag_loop n2 t i st"
proof (induction n1 t i st rule: findMatchedStartTag_loop.induct)
  case (1 name prevContent lastIndex stack)
  show ?case
    apply (subst findMatchedStartTag_loop.simps [of name])
    apply (subst findMatchedStartTag_loop.simps [of n2])
    apply (auto split: option.splits tagMatch.splits list.splits simp: "1.IH")
    done
qed

lemma endLoop_None:
  "exec c j = None \<Longrightarrow> findMatchedEndTag_loop name c j st = None"
  by (simp add: findMatchedEndTag_loop.simps [of name c j st])

lemma endLoop_Start:
  "exec c j = Some (idx, StartName s, j') \<Longrightarrow>
   findMatchedEndTag_loop name c j st = findMatchedEndTag_loop name c j' (s # st)"
  by (simp add: findMatchedEndTag_loop.simps [of name c j st])

lemma endLoop_End_hit:
  "exec c j = Some (idx, EndName name, j') \<Longrightarrow> findMatchedEndTag_loop name c j [] = Some idx"
  by (simp add: findMatchedEndTag_loop.simps [of name c j "[]"])

lemma endLoop_End_miss:
  "exec c j = Some (idx, EndName e, j') \<Longrightarrow> e \<noteq> name \<Longrightarrow>
   findMatchedEndTag_loop name c j [] = findMatchedEndTag_loop name c j' []"
  by (simp add: findMatchedEndTag_loop.simps [of name c j "[]"])

lemma endLoop_End_pop:
  "exec c j = Some (idx, EndName e, j') \<Longrightarrow>
   findMatchedEndTag_loop name c j (e # st) = findMatchedEndTag_loop name c j' st"
  by (simp add: findMatchedEndTag_loop.simps [of name c j "e # st"])

lemma endLoop_End_mismatch:
  "exec c j = Some (idx, EndName e, j') \<Longrightarrow> tp \<noteq> e \<Longrightarrow>
   findMatchedEndTag_loop name c j (tp # st) = None"
  by (simp add: findMatchedEndTag_loop.simps [of name c j "tp # st"])

lemma startLoop_None:
  "exec c j = None \<Longrightarrow> findMatchedStartTag_loop name c j st = st"
  by (simp add: findMatchedStartTag_loop.simps [of name c j st])

lemma startLoop_Start:
  "exec c j = Some (idx, StartName s, j') \<Longrightarrow>
   findMatchedStartTag_loop name c j st = findMatchedStartTag_loop name c j' ((s, idx) # st)"
  by (simp add: findMatchedStartTag_loop.simps [of name c j st])

lemma startLoop_End_empty:
  "exec c j = Some (idx, EndName e, j') \<Longrightarrow> findMatchedStartTag_loop name c j [] = []"
  by (simp add: findMatchedStartTag_loop.simps [of name c j "[]"])

lemma startLoop_End_pop:
  "exec c j = Some (idx, EndName e, j') \<Longrightarrow>
   findMatchedStartTag_loop name c j ((e, k) # st) = findMatchedStartTag_loop name c j' st"
  by (simp add: findMatchedStartTag_loop.simps [of name c j "(e, k) # st"])

lemma startLoop_End_mismatch:
  "exec c j = Some (idx, EndName e, j') \<Longrightarrow> fst tp \<noteq> e \<Longrightarrow>
   findMatchedStartTag_loop name c j (tp # st) = st"
  by (simp add: findMatchedStartTag_loop.simps [of name c j "tp # st"])

lemma findMatchedEndTag_loop_Some:
  "findMatchedEndTag_loop name tail j st = Some i \<Longrightarrow>
   \<exists>k. tagAt (drop i tail) = Some (EndName name, k)"
proof (induction name tail j st rule: findMatchedEndTag_loop.induct)
  case (1 name c j st)
  show ?case
  proof (cases "exec c j")
    case None
    with "1.prems" show ?thesis by (simp add: findMatchedEndTag_loop.simps [of name c j st])
  next
    case (Some p)
    obtain idx m j' where p: "p = (idx, m, j')" by (cases p)
    show ?thesis
    proof (cases m)
      case (StartName s)
      with "1.prems" Some p have "findMatchedEndTag_loop name c j' (s # st) = Some i"
        by (simp add: findMatchedEndTag_loop.simps [of name c j st])
      with "1.IH"(1) Some p StartName show ?thesis by auto
    next
      case (EndName e)
      show ?thesis
      proof (cases st)
        case Nil
        show ?thesis
        proof (cases "e = name")
          case True
          with "1.prems" Some p EndName Nil endLoop_End_hit [of c j idx name j'] have "idx = i"
            by simp
          with exec_found [of c j idx m j'] Some p EndName True show ?thesis by auto
        next
          case False
          with "1.prems" Some p EndName Nil endLoop_End_miss [of c j idx e j' name]
          have "findMatchedEndTag_loop name c j' [] = Some i"
            by simp
          with "1.IH"(2) Some p EndName Nil False show ?thesis by auto
        qed
      next
        case (Cons tp st')
        with "1.prems" Some p EndName have "tp = e"
          and "findMatchedEndTag_loop name c j' st' = Some i"
          by (auto simp: findMatchedEndTag_loop.simps [of name c j "tp # st'"] split: if_splits)
        with "1.IH"(3) Some p EndName Cons show ?thesis by auto
      qed
    qed
  qed
qed

lemma exec_shift:
  "exec (pre @ s) (length pre + i) =
   map_option (\<lambda>(idx, m, j). (length pre + idx, m, length pre + j)) (exec s i)"
proof (induction s i rule: exec.induct)
  case (1 s i)
  show ?case
  proof (cases "length s < i")
    case True
    then show ?thesis by (simp add: exec.simps [of _ "length pre + i"] exec.simps [of s i])
  next
    case le: False
    show ?thesis
    proof (cases "tagAt (drop i s)")
      case (Some p)
      with le show ?thesis
        by (cases p) (simp add: exec.simps [of _ "length pre + i"] exec.simps [of s i])
    next
      case None
      show ?thesis
      proof (cases "i = length s")
        case True
        with exec_Nil_end [of "pre @ s"] show ?thesis by simp
      next
        case False
        from "1.IH" [OF le None False] le None False show ?thesis
          by (simp add: exec.simps [of _ "length pre + i"] exec.simps [of s i])
      qed
    qed
  qed
qed

lemma endLoop_shift:
  "findMatchedEndTag_loop name (pre @ s) (length pre + i) st =
   map_option (\<lambda>k. length pre + k) (findMatchedEndTag_loop name s i st)"
proof (induction name s i st rule: findMatchedEndTag_loop.induct)
  case (1 name s i st)
  show ?case
  proof (cases "exec s i")
    case None
    then have "exec (pre @ s) (length pre + i) = None" by (simp add: exec_shift)
    with None show ?thesis by (simp add: endLoop_None)
  next
    case (Some p)
    obtain idx m j where p: "p = (idx, m, j)" by (cases p)
    with Some have e: "exec s i = Some (idx, m, j)" by simp
    then have e': "exec (pre @ s) (length pre + i) = Some (length pre + idx, m, length pre + j)"
      by (simp add: exec_shift)
    show ?thesis
    proof (cases m)
      case (StartName x)
      with "1.IH"(1) e e' show ?thesis by (simp add: endLoop_Start)
    next
      case (EndName x)
      show ?thesis
      proof (cases st)
        case Nil
        show ?thesis
        proof (cases "x = name")
          case True
          with e e' EndName Nil show ?thesis by (simp add: endLoop_End_hit)
        next
          case False
          with "1.IH"(2) e e' EndName Nil show ?thesis by (simp add: endLoop_End_miss)
        qed
      next
        case (Cons tp st')
        show ?thesis
        proof (cases "tp = x")
          case True
          with "1.IH"(3) e e' EndName Cons show ?thesis by (simp add: endLoop_End_pop)
        next
          case False
          with e e' EndName Cons show ?thesis by (simp add: endLoop_End_mismatch)
        qed
      qed
    qed
  qed
qed

text \<open>
  An end token of another name, met with an empty stack, does not end the
  forward scan: the result is that of scanning the text behind the token.
\<close>

lemma endLoop_scans_past_other_end_tag:
  assumes "exec tail i = Some (index, EndName e, j)" and "e \<noteq> name"
  shows "findMatchedEndTag_loop name tail i [] =
         map_option (\<lambda>k. j + k) (findMatchedEndTag name (drop j tail))"
proof -
  from exec_bounds [OF assms(1)] have j: "j \<le> length tail" by simp
  then have len: "length (take j tail) = j" by simp
  have "findMatchedEndTag_loop name tail i [] = findMatchedEndTag_loop name tail j []"
    using assms by (rule endLoop_End_miss)
  also have "\<dots> = findMatchedEndTag_loop name (take j tail @ drop j tail)
                      (length (take j tail) + 0) []"
    using len by simp
  also have "\<dots> = map_option (\<lambda>k. length (take j tail) + k)
                      (findMatchedEndTag_loop name (drop j tail) 0 [])"
    by (rule endLoop_shift)
  finally show ?thesis using j by (simp add: findMatchedEndTag_def min_absorb2)
qed

subsection \<open>Text that normalize leaves as it is\<close>

declare replace.simps [simp del]

lemma ends_Seq_Lit:
  "ends (Seq (Lit c) r) s = (case s of [] \<Rightarrow> [] | x # t \<Rightarrow> if x = c then ends r t else [])"
  by (cases s) simp_all

lemma matchAt_None_iff: "matchAt re s = None \<longleftrightarrow> ends re s = []"
  by (simp add: matchAt_def split: list.splits)

lemma isSpace_simps [simp]:
  "\<not> isSpace CHR ''<''" "\<not> isSpace CHR ''>''" "\<not> isSpace CHR ''/''"
  by (simp_all add: isSpace_def)

lemma ends_selfClosing_open:
  assumes "validName n" and "\<not> isNameChar d" and "\<not> isSpace d"
  shows "ends selfClosingRx (CHR ''<'' # n @ d # t) = []"
proof -
  from assms(1) obtain z n' where n: "n = z # n'" and z: "isNameChar z"
    and n': "list_all isNameChar n'"
    by (cases n) (auto simp: validName_def)
  let ?G = "Seq (Plus (Cls isSpace))
              (Seq (Star (Cls notAngle)) (Seq (Lit CHR ''/'') (Lit CHR ''>'')))"
  have G: "ends ?G (x # u) = []" if "\<not> isSpace x" for x u
    using that by (simp add: ends_Plus_Cls)
  have "concat (map (ends ?G) (greedyEnds isNameChar (n' @ d # t))) =
        ends ?G (dropWhile isNameChar (n' @ d # t))"
    by (rule concat_greedyEnds) (rule G, erule isNameChar_not_space)
  also have "dropWhile isNameChar (n' @ d # t) = d # t"
    using n' assms(2) by (intro dropWhile_run) auto
  also have "ends ?G (d # t) = []" using assms(3) by (rule G)
  finally show ?thesis
    using z by (simp add: selfClosingRx_def ends_Seq_Lit n ends_Plus_Cls)
qed

lemma pass_Nil: "passRx re \<Longrightarrow> matchAt re [] = None"
  by (auto simp: passRx_def matchAt_None_iff commentRx_def quotedRx_def selfClosingRx_def)

lemma pass_inert: "passRx re \<Longrightarrow> inert c \<Longrightarrow> matchAt re (c # t) = None"
  by (auto simp: passRx_def matchAt_None_iff commentRx_def quotedRx_def selfClosingRx_def
      inert_def)

lemma pass_close: "passRx re \<Longrightarrow> matchAt re (CHR ''<'' # CHR ''/'' # t) = None"
  by (auto simp: passRx_def matchAt_None_iff commentRx_def quotedRx_def selfClosingRx_def
      ends_Plus_Cls)

lemma pass_open:
  assumes "passRx re" and "validName n" and "\<not> isNameChar d" and "\<not> isSpace d"
  shows "matchAt re (CHR ''<'' # n @ d # t) = None"
proof -
  from assms(2) obtain z n' where n: "n = z # n'" and z: "isNameChar z"
    by (cases n) (auto simp: validName_def)
  from z have "z \<noteq> CHR ''!''" by auto
  then have "ends commentRx (CHR ''<'' # n @ d # t) = []"
    by (simp add: commentRx_def n)
  moreover have "ends quotedRx (CHR ''<'' # n @ d # t) = []"
    by (simp add: quotedRx_def)
  moreover note ends_selfClosing_open [OF assms(2-4), of t]
  ultimately show ?thesis using assms(1) by (auto simp: passRx_def matchAt_None_iff)
qed

lemma replace_Nil: "passRx re \<Longrightarrow> replace re [] = []"
  by (simp add: pass_Nil replace.simps)

lemma replace_inert:
  "passRx re \<Longrightarrow> list_all inert u \<Longrightarrow> replace re (u @ rest) = u @ replace re rest"
  by (induction u) (simp_all add: pass_inert replace.simps)

lemma name_inert: "validName n \<Longrightarrow> list_all inert n"
  by (auto simp: validName_def list_all_iff inert_def)

lemma replace_open:
  assumes "passRx re" and "validName n" and "\<not> isNameChar d" and "\<not> isSpace d" and "inert d"
  shows "replace re (CHR ''<'' # n @ d # rest) = CHR ''<'' # n @ d # replace re rest"
proof -
  have "replace re (CHR ''<'' # n @ d # rest) = CHR ''<'' # replace re ((n @ [d]) @ rest)"
    using pass_open [OF assms(1-4)] by (simp add: replace.simps)
  also have "replace re ((n @ [d]) @ rest) = (n @ [d]) @ replace re rest"
    using assms(1) name_inert [OF assms(2)] assms(5) by (intro replace_inert) simp_all
  finally show ?thesis by simp
qed

lemma replace_close:
  assumes "passRx re" and "validName n"
  shows "replace re (CHR ''<'' # CHR ''/'' # n @ CHR ''>'' # rest) =
         CHR ''<'' # CHR ''/'' # n @ CHR ''>'' # replace re rest"
proof -
  have "replace re (CHR ''<'' # CHR ''/'' # n @ CHR ''>'' # rest) =
        CHR ''<'' # replace re ((CHR ''/'' # n @ [CHR ''>'']) @ rest)"
    using pass_close [OF assms(1)] by (simp add: replace.simps)
  also have "replace re ((CHR ''/'' # n @ [CHR ''>'']) @ rest) =
             (CHR ''/'' # n @ [CHR ''>'']) @ replace re rest"
    using assms(1) name_inert [OF assms(2)] by (intro replace_inert) (simp_all add: inert_def)
  finally show ?thesis by simp
qed

lemma passRx_simps [simp]: "passRx commentRx" "passRx quotedRx" "passRx selfClosingRx"
  by (simp_all add: passRx_def)

lemma normalize_Nil [simp]: "normalize [] = []"
  by (simp add: normalize_def replace_Nil)

lemma normalize_inert: "list_all inert u \<Longrightarrow> normalize (u @ rest) = u @ normalize rest"
  by (simp add: normalize_def replace_inert)

lemma normalize_open:
  "validName n \<Longrightarrow> \<not> isNameChar d \<Longrightarrow> \<not> isSpace d \<Longrightarrow> inert d \<Longrightarrow>
   normalize (CHR ''<'' # n @ d # rest) = CHR ''<'' # n @ d # normalize rest"
  by (simp add: normalize_def replace_open)

lemma normalize_close:
  "validName n \<Longrightarrow>
   normalize (CHR ''<'' # CHR ''/'' # n @ CHR ''>'' # rest) =
   CHR ''<'' # CHR ''/'' # n @ CHR ''>'' # normalize rest"
  by (simp add: normalize_def replace_close)

subsection \<open>The patterns of normalize at a comment, a quoted value and a tag\<close>

lemma greedyEnds_drop:
  "u \<in> set (greedyEnds P s) \<Longrightarrow> \<exists>k\<le>length (takeWhile P s). u = drop k s"
proof (induction s)
  case Nil
  then show ?case by simp
next
  case (Cons x t)
  show ?case
  proof (cases "P x \<and> u \<in> set (greedyEnds P t)")
    case True
    with Cons.IH obtain k where "k \<le> length (takeWhile P t)" "u = drop k t" by blast
    with True show ?thesis by (intro exI [of _ "Suc k"]) simp
  next
    case False
    with Cons.prems have "u = x # t" by (auto split: if_splits)
    then show ?thesis by (intro exI [of _ 0]) simp
  qed
qed

lemma greedyEnds_two:
  "list_all P B \<Longrightarrow> P x \<Longrightarrow> \<not> P y \<Longrightarrow>
   \<exists>ts. greedyEnds P (B @ x # y # s) = (y # s) # (x # y # s) # ts"
  by (induction B) auto

lemma replace_keep:
  "(\<And>i. i < length u \<Longrightarrow> matchAt re (drop i u @ rest) = None) \<Longrightarrow>
   replace re (u @ rest) = u @ replace re rest"
proof (induction u)
  case Nil
  show ?case by simp
next
  case (Cons c u)
  from Cons.prems [of 0] have "matchAt re (c # u @ rest) = None" by simp
  moreover have "replace re (u @ rest) = u @ replace re rest"
  proof (rule Cons.IH)
    fix i assume "i < length u"
    with Cons.prems [of "Suc i"] show "matchAt re (drop i u @ rest) = None" by simp
  qed
  ultimately show ?case by (simp add: replace.simps)
qed

lemma replace_match:
  assumes "ends re (m @ rest) = rest # ts" and "m \<noteq> []"
  shows "replace re (m @ rest) = replicate (length m) CHR '' '' @ replace re rest"
proof -
  from assms(2) obtain c cs where m: "m = c # cs" by (cases m) auto
  from assms(1) have "matchAt re (c # cs @ rest) = Some (c # cs)"
    by (simp add: matchAt_def m)
  then show ?thesis by (simp add: replace.simps m replacer_def)
qed

lemma comment_no_open: "take 4 s \<noteq> ''<!--'' \<Longrightarrow> matchAt commentRx s = None"
  by (auto simp: matchAt_None_iff commentRx_def ends_Seq_Lit split: list.splits)

lemma close_boundary:
  assumes "take 3 (c # b) \<noteq> ''-->''"
  shows "take 3 (c # b @ ''-->'' @ rest) \<noteq> ''-->''"
proof (cases b)
  case Nil
  then show ?thesis by simp
next
  case (Cons y b')
  with assms show ?thesis by (cases b') simp_all
qed

lemma ends_closer:
  "take 3 s \<noteq> ''-->'' \<Longrightarrow> ends (Str ''--'' (Lit CHR ''>'')) s = []"
  by (auto simp: ends_Seq_Lit split: list.splits)

lemma no_close_inside:
  "\<not> hasCommentClose b \<Longrightarrow> i < length b \<Longrightarrow> take 3 (drop i b @ ''-->'' @ rest) \<noteq> ''-->''"
proof (induction b arbitrary: i)
  case Nil
  then show ?case by simp
next
  case (Cons c b)
  show ?case
  proof (cases i)
    case 0
    from Cons.prems(1) have "take 3 (c # b) \<noteq> ''-->''" by simp
    from close_boundary [OF this, of rest] 0 show ?thesis by simp
  next
    case (Suc j)
    with Cons show ?thesis by simp
  qed
qed

lemma lazy_zero: "\<exists>ts. ends (Seq (LazyStar r) C) s = ends C s @ ts"
  by (subst ends.simps(3), subst ends.simps(6)) simp

lemma lazy_step:
  "P c \<Longrightarrow> ends (Seq (LazyStar (Cls P)) C) (c # s) =
     ends C (c # s) @ ends (Seq (LazyStar (Cls P)) C) s"
  by (subst ends.simps(3), subst ends.simps(6)) simp

lemma lazy_until:
  assumes "ends C s0 = [rest]" and "list_all P b"
    and "\<And>i. i < length b \<Longrightarrow> ends C (drop i b @ s0) = []"
  shows "\<exists>ts. ends (Seq (LazyStar (Cls P)) C) (b @ s0) = rest # ts"
  using assms(2,3)
proof (induction b)
  case Nil
  from lazy_zero [of "Cls P" C s0] assms(1) show ?case by simp
next
  case (Cons c b)
  from Cons.prems(1) have c: "P c" and b: "list_all P b" by simp_all
  have "\<exists>ts. ends (Seq (LazyStar (Cls P)) C) (b @ s0) = rest # ts"
  proof (rule Cons.IH [OF b])
    fix i assume "i < length b"
    with Cons.prems(2) [of "Suc i"] show "ends C (drop i b @ s0) = []" by simp
  qed
  moreover from Cons.prems(2) [of 0] have "ends C (c # b @ s0) = []" by simp
  ultimately show ?case using lazy_step [of P c C "b @ s0"] c by simp
qed

lemma comment_match:
  assumes "list_all isDot b" and "\<not> hasCommentClose b"
  shows "\<exists>ts. ends commentRx (''<!--'' @ b @ ''-->'' @ rest) = rest # ts"
proof -
  have hit: "ends (Str ''--'' (Lit CHR ''>'')) (''-->'' @ rest) = [rest]" by simp
  have "\<exists>ts. ends (Seq (LazyStar (Cls isDot)) (Str ''--'' (Lit CHR ''>''))) (b @ ''-->'' @ rest) =
          rest # ts"
    using hit assms(1)
  proof (rule lazy_until)
    fix i assume "i < length b"
    from no_close_inside [OF assms(2) this]
    show "ends (Str ''--'' (Lit CHR ''>'')) (drop i b @ ''-->'' @ rest) = []"
      by (rule ends_closer)
  qed
  then show ?thesis by (simp add: commentRx_def ends_Seq_Lit del: ends.simps(3))
qed

lemma open_boundary:
  assumes "take 4 (c # v) \<noteq> ''<!--''" and "q \<noteq> CHR ''!''" and "q \<noteq> CHR ''-''"
  shows "take 4 (c # v @ q # rest) \<noteq> ''<!--''"
proof (cases v)
  case Nil
  with assms show ?thesis by simp
next
  case v: (Cons y v')
  show ?thesis
  proof (cases v')
    case Nil
    with v assms show ?thesis by simp
  next
    case (Cons z v'')
    with v assms show ?thesis by (cases v'') simp_all
  qed
qed

lemma value_no_open:
  "\<not> hasCommentOpen v \<Longrightarrow> q \<noteq> CHR ''<'' \<Longrightarrow> q \<noteq> CHR ''!'' \<Longrightarrow> q \<noteq> CHR ''-'' \<Longrightarrow>
   take 4 (drop i v @ q # rest) \<noteq> ''<!--''"
proof (induction v arbitrary: i)
  case Nil
  then show ?case by simp
next
  case (Cons c v)
  show ?case
  proof (cases i)
    case 0
    with Cons.prems open_boundary [of c v q rest] show ?thesis by simp
  next
    case (Suc j)
    with Cons show ?thesis by simp
  qed
qed

lemma comment_keeps_value:
  assumes "\<not> hasCommentOpen v" and "q = CHR 0x22 \<or> q = CHR 0x27"
  shows "replace commentRx ((q # v @ [q]) @ rest) = (q # v @ [q]) @ replace commentRx rest"
proof (rule replace_keep)
  fix i assume i: "i < length (q # v @ [q])"
  have q: "q \<noteq> CHR ''<''" "q \<noteq> CHR ''!''" "q \<noteq> CHR ''-''" using assms(2) by auto
  have "take 4 (drop i (q # v @ [q]) @ rest) \<noteq> ''<!--''"
  proof (cases i)
    case 0
    with q show ?thesis by simp
  next
    case (Suc j)
    with i have "j \<le> length v" by simp
    then have "drop i (q # v @ [q]) @ rest = drop j v @ q # rest"
      using Suc by simp
    with value_no_open [OF assms(1) q] show ?thesis by simp
  qed
  then show "matchAt commentRx (drop i (q # v @ [q]) @ rest) = None"
    by (rule comment_no_open)
qed

lemma quoted_no_quote:
  "c \<noteq> CHR 0x22 \<Longrightarrow> c \<noteq> CHR 0x27 \<Longrightarrow> matchAt quotedRx (c # t) = None"
  by (simp add: matchAt_None_iff quotedRx_def)

lemma quoted_match_double:
  assumes "CHR 0x22 \<notin> set v"
  shows "\<exists>ts. ends quotedRx (CHR 0x22 # v @ CHR 0x22 # rest) = rest # ts"
proof -
  have "dropWhile notDQuote (v @ CHR 0x22 # rest) = CHR 0x22 # rest"
    using assms by (intro dropWhile_run) (auto simp: notDQuote_def list_all_iff)
  with greedyEnds_first [of notDQuote "v @ CHR 0x22 # rest"]
  obtain ts where "greedyEnds notDQuote (v @ CHR 0x22 # rest) = (CHR 0x22 # rest) # ts"
    by auto
  then show ?thesis by (simp add: quotedRx_def ends_Star_Cls)
qed

lemma quoted_match_single:
  assumes "CHR 0x27 \<notin> set v"
  shows "\<exists>ts. ends quotedRx (CHR 0x27 # v @ CHR 0x27 # rest) = rest # ts"
proof -
  have "dropWhile notSQuote (v @ CHR 0x27 # rest) = CHR 0x27 # rest"
    using assms by (intro dropWhile_run) (auto simp: notSQuote_def list_all_iff)
  with greedyEnds_first [of notSQuote "v @ CHR 0x27 # rest"]
  obtain ts where "greedyEnds notSQuote (v @ CHR 0x27 # rest) = (CHR 0x27 # rest) # ts"
    by auto
  then show ?thesis by (simp add: quotedRx_def ends_Star_Cls)
qed

lemma slash_gt_inside:
  assumes "list_all notAngle A" and "A = [] \<or> last A \<noteq> CHR ''/''" and "k \<le> length A"
  shows "ends (Seq (Lit CHR ''/'') (Lit CHR ''>'')) (drop k A @ CHR ''>'' # t) = []"
proof (cases "drop k A")
  case Nil
  then show ?thesis by simp
next
  case (Cons x r)
  show ?thesis
  proof (cases r)
    case Nil
    with Cons have "last A = x"
      by (metis append_take_drop_id last_snoc)
    moreover from Cons have "A \<noteq> []" by auto
    ultimately show ?thesis using assms(2) Cons Nil by simp
  next
    case (Cons y r')
    with \<open>drop k A = x # r\<close> have "y \<in> set (drop k A)" by simp
    then have "y \<in> set A" by (rule in_set_dropD)
    with assms(1) have "y \<noteq> CHR ''>''" by (auto simp: list_all_iff notAngle_def)
    with Cons \<open>drop k A = x # r\<close> show ?thesis by simp
  qed
qed

lemma takeWhile_notAngle:
  "list_all notAngle A \<Longrightarrow> takeWhile notAngle (A @ CHR ''>'' # t) = A"
  by (intro takeWhile_run) (simp_all add: notAngle_def)

lemma no_slash_gt:
  assumes "list_all notAngle A" and "A = [] \<or> last A \<noteq> CHR ''/''" and "k \<le> length A"
  shows "ends selfCloseTestRx (drop k A @ CHR ''>'' # t) = []"
proof -
  let ?s = "drop k A @ CHR ''>'' # t"
  have dA: "list_all notAngle (drop k A)"
    using assms(1) by (auto simp: list_all_iff dest: in_set_dropD)
  have "ends (Seq (Lit CHR ''/'') (Lit CHR ''>'')) u = []" if "u \<in> set (greedyEnds notAngle ?s)" for u
  proof -
    from greedyEnds_drop [OF that] obtain j where j: "j \<le> length (takeWhile notAngle ?s)"
      and u: "u = drop j ?s"
      by blast
    from j have j': "j \<le> length (drop k A)" by (simp add: takeWhile_notAngle [OF dA])
    then have "u = drop (k + j) A @ CHR ''>'' # t" using u by (simp add: add.commute)
    moreover have "k + j \<le> length A" using j' assms(3) by simp
    ultimately show ?thesis using slash_gt_inside [OF assms(1,2)] by simp
  qed
  then show ?thesis by (simp add: selfCloseTestRx_def ends_Star_Cls)
qed

lemma test_open_tag:
  assumes "list_all notAngle A" and "A = [] \<or> last A \<noteq> CHR ''/''"
  shows "\<not> test selfCloseTestRx (A @ CHR ''>'' # t)"
  using no_slash_gt [OF assms, of 0 t] by (simp add: test_def matchAt_None_iff)

lemma selfClosing_after_name:
  assumes "validName n" and "s = [] \<or> \<not> isNameChar (hd s)"
  shows "ends selfClosingRx (CHR ''<'' # n @ s) =
         ends (Seq (Plus (Cls isSpace)) selfCloseTestRx) s"
proof -
  from assms(1) obtain z n' where n: "n = z # n'" and z: "isNameChar z"
    and n': "list_all isNameChar n'"
    by (cases n) (auto simp: validName_def)
  let ?G = "Seq (Plus (Cls isSpace)) selfCloseTestRx"
  have G: "ends ?G (x # u) = []" if "\<not> isSpace x" for x u
    using that by (simp add: ends_Plus_Cls)
  have "ends selfClosingRx (CHR ''<'' # n @ s) =
        concat (map (ends ?G) (greedyEnds isNameChar (n' @ s)))"
    using z by (simp add: selfClosingRx_def selfCloseTestRx_def ends_Seq_Lit n ends_Plus_Cls)
  also have "\<dots> = ends ?G (dropWhile isNameChar (n' @ s))"
    by (rule concat_greedyEnds) (rule G, erule isNameChar_not_space)
  also have "dropWhile isNameChar (n' @ s) = s"
    using n' assms(2) by (intro dropWhile_run) auto
  finally show ?thesis .
qed

lemma selfClosing_open_tag:
  assumes "validName n" and "list_all notAngle A" and "A = [] \<or> \<not> isNameChar (hd A)"
    and "A = [] \<or> last A \<noteq> CHR ''/''"
  shows "ends selfClosingRx (CHR ''<'' # n @ A @ CHR ''>'' # t) = []"
proof -
  let ?s = "A @ CHR ''>'' # t"
  have hd: "?s = [] \<or> \<not> isNameChar (hd ?s)" using assms(3) by (cases A) auto
  have "ends selfCloseTestRx u = []" if "u \<in> set (ends (Plus (Cls isSpace)) ?s)" for u
  proof -
    from that obtain x A' where A: "A = x # A'" and x: "isSpace x"
      and u: "u \<in> set (greedyEnds isSpace (A' @ CHR ''>'' # t))"
      by (cases A) (auto simp: ends_Plus_Cls split: if_splits)
    define r where "r = A' @ CHR ''>'' # t"
    from u have u: "u \<in> set (greedyEnds isSpace r)" by (simp add: r_def)
    have r: "r = A' @ CHR ''>'' # t" by (rule r_def)
    from greedyEnds_drop [OF u] obtain j where j: "j \<le> length (takeWhile isSpace r)"
      and uj: "u = drop j r"
      by blast
    have "length (takeWhile isSpace r) \<le> length A'"
      unfolding r by (induction A') auto
    with j have "Suc j \<le> length A" by (simp add: A)
    moreover have "u = drop (Suc j) A @ CHR ''>'' # t"
      using uj j \<open>length (takeWhile isSpace r) \<le> length A'\<close> by (simp add: A r)
    ultimately show ?thesis using no_slash_gt [OF assms(2,4)] by simp
  qed
  then have "ends (Seq (Plus (Cls isSpace)) selfCloseTestRx) ?s = []" by simp
  with selfClosing_after_name [OF assms(1) hd] show ?thesis by simp
qed

lemma selfClosing_void_tag:
  assumes "validName n" and "isSpace c" and "list_all notAngle A"
  shows "\<exists>ts. ends selfClosingRx (CHR ''<'' # n @ c # A @ CHR ''/'' # CHR ''>'' # rest) = rest # ts"
proof -
  let ?s = "c # A @ CHR ''/'' # CHR ''>'' # rest"
  have hd: "?s = [] \<or> \<not> isNameChar (hd ?s)"
    using assms(2) isNameChar_not_space by auto
  obtain A' where A': "list_all notAngle A'"
    and d: "dropWhile isSpace (A @ CHR ''/'' # CHR ''>'' # rest) = A' @ CHR ''/'' # CHR ''>'' # rest"
  proof
    show "list_all notAngle (dropWhile isSpace A)"
      using assms(3) by (auto simp: list_all_iff dest: set_dropWhileD)
    show "dropWhile isSpace (A @ CHR ''/'' # CHR ''>'' # rest) =
          dropWhile isSpace A @ CHR ''/'' # CHR ''>'' # rest"
      by (simp add: dropWhile_append)
  qed
  from greedyEnds_first [of isSpace "A @ CHR ''/'' # CHR ''>'' # rest"] d
  obtain ts1 where g1: "greedyEnds isSpace (A @ CHR ''/'' # CHR ''>'' # rest) =
      (A' @ CHR ''/'' # CHR ''>'' # rest) # ts1"
    by auto
  from greedyEnds_two [OF A', of "CHR ''/''" "CHR ''>''" rest]
  obtain ts2 where g2: "greedyEnds notAngle (A' @ CHR ''/'' # CHR ''>'' # rest) =
      (CHR ''>'' # rest) # (CHR ''/'' # CHR ''>'' # rest) # ts2"
    by (auto simp: notAngle_def)
  have "\<exists>ts. ends selfCloseTestRx (A' @ CHR ''/'' # CHR ''>'' # rest) = rest # ts"
    by (simp add: selfCloseTestRx_def ends_Star_Cls g2)
  then have "\<exists>ts. ends (Seq (Plus (Cls isSpace)) selfCloseTestRx) ?s = rest # ts"
    using assms(2) by (auto simp: ends_Plus_Cls g1)
  with selfClosing_after_name [OF assms(1) hd] show ?thesis by simp
qed

subsection \<open>normalize on markup\<close>

lemma renderAttrs_simps [simp]:
  "renderAttrs [] = []" "renderAttrs (p # a) = renderPiece p @ renderAttrs a"
  by (simp_all add: renderAttrs_def)

lemma attrsAt_simps [simp]:
  "attrsAt k [] = []" "attrsAt k (p # a) = pieceAt k p @ attrsAt k a"
  by (simp_all add: attrsAt_def)

lemma attrsAt_append [simp]: "attrsAt k (a @ b) = attrsAt k a @ attrsAt k b"
  by (simp add: attrsAt_def)

lemma renderAll_simps [simp]:
  "renderAll [] = []" "renderAll (x # xs) = render x @ renderAll xs"
  by (simp_all add: renderAll_def)

lemma renderAll_append [simp]: "renderAll (xs @ ys) = renderAll xs @ renderAll ys"
  by (simp add: renderAll_def)

lemma renderAllAt_simps [simp]:
  "renderAllAt k [] = []" "renderAllAt k (x # xs) = renderAt k x @ renderAllAt k xs"
  by (simp_all add: renderAllAt_def)

lemma renderAllAt_append [simp]: "renderAllAt k (xs @ ys) = renderAllAt k xs @ renderAllAt k ys"
  by (simp add: renderAllAt_def)

lemma render_Element:
  "render (Element n a kids) =
   CHR ''<'' # n @ renderAttrs a @ CHR ''>'' # renderAll kids @ CHR ''<'' # CHR ''/'' # n @ [CHR ''>'']"
  by (simp add: renderAll_def)

lemma renderAt_Element:
  "renderAt k (Element n a kids) =
   CHR ''<'' # n @ attrsAt k a @ CHR ''>'' # renderAllAt k kids @ CHR ''<'' # CHR ''/'' # n @ [CHR ''>'']"
  by (simp add: renderAllAt_def)

declare render.simps(6) [simp del]
declare renderAt.simps(6) [simp del]

lemma pieceAt_low: "k < 2 \<Longrightarrow> pieceAt k p = renderPiece p"
  by (cases p) simp_all

lemma attrsAt_low: "k < 2 \<Longrightarrow> attrsAt k a = renderAttrs a"
  by (induction a) (simp_all add: pieceAt_low)

lemma length_pieceAt [simp]: "length (pieceAt k p) = length (renderPiece p)"
  by (cases p) simp_all

lemma length_attrsAt [simp]: "length (attrsAt k a) = length (renderAttrs a)"
  by (induction a) simp_all

lemma renderAt_0:
  "renderAt 0 x = render x"
proof (induction x)
  case (Element n a kids)
  then have "renderAllAt 0 kids = renderAll kids" by (induction kids) simp_all
  then show ?case by (simp add: render_Element renderAt_Element attrsAt_low)
qed (simp_all add: attrsAt_low pieceAt_low)

lemma renderAllAt_0: "renderAllAt 0 xs = renderAll xs"
  by (induction xs) (simp_all add: renderAt_0)

lemma length_renderAt [simp]: "length (renderAt k x) = length (render x)"
proof (induction x)
  case (Element n a kids)
  then have "length (renderAllAt k kids) = length (renderAll kids)" by (induction kids) simp_all
  then show ?case by (simp add: render_Element renderAt_Element)
qed simp_all

lemma length_renderAllAt [simp]: "length (renderAllAt k xs) = length (renderAll xs)"
  by (induction xs) simp_all

lemma passRx_rxOf [simp]: "passRx (rxOf k)"
  by (cases k rule: rxOf.cases) simp_all

lemma three_cases: "k < 3 \<Longrightarrow> k = 0 \<or> k = Suc 0 \<or> k = 2"
  by arith

lemma rxOf_2 [simp]: "rxOf 2 = selfClosingRx"
  by (simp add: numeral_2_eq_2)

lemma blanks_inert: "list_all inert (replicate m CHR '' '')"
  by (simp add: list_all_iff inert_def)

lemma replace_match_length:
  assumes "ends re (m @ rest) = rest # ts" and "m \<noteq> []" and "length m = l"
  shows "replace re (m @ rest) = replicate l CHR '' '' @ replace re rest"
  using replace_match [OF assms(1,2)] assms(3) by simp

lemma pass_piece:
  assumes "k < 3" and "pieceOk p"
  shows "replace (rxOf k) (pieceAt k p @ rest) = pieceAt (Suc k) p @ replace (rxOf k) rest"
proof (cases p)
  case (Plain c)
  with assms(2) have "list_all inert [c]" by simp
  from replace_inert [OF passRx_rxOf this] Plain show ?thesis by simp
next
  case (DQuoted v)
  with assms(2) have v: "CHR 0x22 \<notin> set v" "\<not> hasCommentOpen v" by simp_all
  from three_cases [OF assms(1)] show ?thesis
  proof (elim disjE)
    assume "k = 0"
    with comment_keeps_value [OF v(2), of "CHR 0x22" rest] DQuoted show ?thesis by simp
  next
    assume k: "k = Suc 0"
    from quoted_match_double [OF v(1), of rest] obtain ts where
      "ends quotedRx ((CHR 0x22 # v @ [CHR 0x22]) @ rest) = rest # ts"
      by auto
    then have "replace quotedRx ((CHR 0x22 # v @ [CHR 0x22]) @ rest) =
               replicate (length v + 2) CHR '' '' @ replace quotedRx rest"
      by (rule replace_match_length) simp_all
    with k DQuoted show ?thesis by simp
  next
    assume "k = 2"
    with replace_inert [OF passRx_rxOf blanks_inert, of k "length v + 2" rest] DQuoted
    show ?thesis by simp
  qed
next
  case (SQuoted v)
  with assms(2) have v: "CHR 0x27 \<notin> set v" "\<not> hasCommentOpen v" by simp_all
  from three_cases [OF assms(1)] show ?thesis
  proof (elim disjE)
    assume "k = 0"
    with comment_keeps_value [OF v(2), of "CHR 0x27" rest] SQuoted show ?thesis by simp
  next
    assume k: "k = Suc 0"
    from quoted_match_single [OF v(1), of rest] obtain ts where
      "ends quotedRx ((CHR 0x27 # v @ [CHR 0x27]) @ rest) = rest # ts"
      by auto
    then have "replace quotedRx ((CHR 0x27 # v @ [CHR 0x27]) @ rest) =
               replicate (length v + 2) CHR '' '' @ replace quotedRx rest"
      by (rule replace_match_length) simp_all
    with k SQuoted show ?thesis by simp
  next
    assume "k = 2"
    with replace_inert [OF passRx_rxOf blanks_inert, of k "length v + 2" rest] SQuoted
    show ?thesis by simp
  qed
qed

lemma pass_attrs:
  "k < 3 \<Longrightarrow> list_all pieceOk a \<Longrightarrow>
   replace (rxOf k) (attrsAt k a @ rest) = attrsAt (Suc k) a @ replace (rxOf k) rest"
  by (induction a) (simp_all add: pass_piece)

lemma pieceAt_not_Nil [simp]: "pieceAt k p \<noteq> []"
  by (cases p) simp_all

lemma pieceAt_2_notAngle: "pieceOk p \<Longrightarrow> list_all notAngle (pieceAt 2 p)"
  by (cases p) (simp_all add: notAngle_def inert_def list_all_iff)

lemma attrsAt_2_notAngle: "list_all pieceOk a \<Longrightarrow> list_all notAngle (attrsAt 2 a)"
  by (induction a) (simp_all add: pieceAt_2_notAngle)

lemma attrsAt_2_hd: "delimited a \<Longrightarrow> attrsAt 2 a = [] \<or> \<not> isNameChar (hd (attrsAt 2 a))"
proof (cases a)
  case Nil
  then show ?thesis by simp
next
  case (Cons p a')
  assume "delimited a"
  with Cons show ?thesis by (cases p) (simp_all add: isNameChar_def)
qed

lemma attrsAt_2_last:
  assumes "a = [] \<or> last a \<noteq> Plain CHR ''/''"
  shows "attrsAt 2 a = [] \<or> last (attrsAt 2 a) \<noteq> CHR ''/''"
proof (cases a rule: rev_cases)
  case Nil
  then show ?thesis by simp
next
  case (snoc a' p)
  with assms have "p \<noteq> Plain CHR ''/''" by simp
  then have "last (pieceAt 2 p) \<noteq> CHR ''/''" by (cases p) simp_all
  with snoc show ?thesis by simp
qed

lemma name_first:
  assumes "validName n"
  obtains z n' where "n = z # n'" and "isNameChar z"
  using assms by (cases n) (auto simp: validName_def)

lemma pass_lt_name:
  assumes "k < 2" and "validName n"
  shows "matchAt (rxOf k) (CHR ''<'' # n @ t) = None"
proof -
  from assms(2) obtain z n' where n: "n = z # n'" and z: "isNameChar z" by (rule name_first)
  from z have "z \<noteq> CHR ''!''" by auto
  then have "matchAt commentRx (CHR ''<'' # n @ t) = None"
    by (intro comment_no_open) (simp add: n)
  moreover have "matchAt quotedRx (CHR ''<'' # n @ t) = None"
    by (rule quoted_no_quote) simp_all
  moreover from assms(1) have "k = 0 \<or> k = Suc 0" by arith
  ultimately show ?thesis by auto
qed

lemma pass_open_tag:
  assumes "k < 3" and "validName n" and "attrsOk a"
  shows "replace (rxOf k) (CHR ''<'' # n @ attrsAt k a @ CHR ''>'' # rest) =
         CHR ''<'' # n @ attrsAt (Suc k) a @ CHR ''>'' # replace (rxOf k) rest"
proof -
  from assms(3) have a: "list_all pieceOk a" "delimited a" "a = [] \<or> last a \<noteq> Plain CHR ''/''"
    by (simp_all add: attrsOk_def)
  have "matchAt (rxOf k) (CHR ''<'' # n @ attrsAt k a @ CHR ''>'' # rest) = None"
  proof (cases "k < 2")
    case True
    then show ?thesis using assms(2) by (rule pass_lt_name)
  next
    case False
    with assms(1) have k: "k = 2" by simp
    from selfClosing_open_tag [OF assms(2) attrsAt_2_notAngle [OF a(1)] attrsAt_2_hd [OF a(2)]
        attrsAt_2_last [OF a(3)], of rest]
    show ?thesis by (simp add: k matchAt_None_iff)
  qed
  then have "replace (rxOf k) (CHR ''<'' # n @ attrsAt k a @ CHR ''>'' # rest) =
             CHR ''<'' # replace (rxOf k) (n @ attrsAt k a @ CHR ''>'' # rest)"
    by (simp add: replace.simps)
  also have "replace (rxOf k) (n @ attrsAt k a @ CHR ''>'' # rest) =
             n @ replace (rxOf k) (attrsAt k a @ CHR ''>'' # rest)"
    using passRx_rxOf name_inert [OF assms(2)] by (rule replace_inert)
  also have "replace (rxOf k) (attrsAt k a @ CHR ''>'' # rest) =
             attrsAt (Suc k) a @ replace (rxOf k) (''>'' @ rest)"
    using pass_attrs [OF assms(1) a(1)] by simp
  also have "replace (rxOf k) (''>'' @ rest) = ''>'' @ replace (rxOf k) rest"
    using passRx_rxOf by (rule replace_inert) (simp add: inert_def)
  finally show ?thesis by simp
qed

lemma pass_comment:
  assumes "k < 3" and "list_all isDot b" and "\<not> hasCommentClose b"
  shows "replace (rxOf k) (renderAt k (Comment b) @ rest) =
         renderAt (Suc k) (Comment b) @ replace (rxOf k) rest"
proof (cases k)
  case 0
  from comment_match [OF assms(2,3), of rest] obtain ts where
    "ends commentRx ((''<!--'' @ b @ ''-->'') @ rest) = rest # ts"
    by auto
  then have "replace commentRx ((''<!--'' @ b @ ''-->'') @ rest) =
             replicate (length b + 7) CHR '' '' @ replace commentRx rest"
    by (rule replace_match_length) simp_all
  with 0 show ?thesis by simp
next
  case (Suc j)
  with replace_inert [OF passRx_rxOf blanks_inert, of k "length b + 7" rest]
  show ?thesis by simp
qed

lemma pass_void:
  assumes "k < 3" and "validName n" and "list_all pieceOk a" and "spaced a"
  shows "replace (rxOf k) (renderAt k (Void n a) @ rest) =
         renderAt (Suc k) (Void n a) @ replace (rxOf k) rest"
proof (cases "k < 2")
  case True
  then have "replace (rxOf k) (CHR ''<'' # n @ attrsAt k a @ ''/>'' @ rest) =
             CHR ''<'' # replace (rxOf k) (n @ attrsAt k a @ ''/>'' @ rest)"
    using pass_lt_name [OF True assms(2), of "attrsAt k a @ ''/>'' @ rest"]
    by (simp add: replace.simps)
  also have "replace (rxOf k) (n @ attrsAt k a @ ''/>'' @ rest) =
             n @ replace (rxOf k) (attrsAt k a @ ''/>'' @ rest)"
    using passRx_rxOf name_inert [OF assms(2)] by (rule replace_inert)
  also have "replace (rxOf k) (attrsAt k a @ ''/>'' @ rest) =
             attrsAt (Suc k) a @ replace (rxOf k) (''/>'' @ rest)"
    using assms(1,3) by (rule pass_attrs)
  also have "replace (rxOf k) (''/>'' @ rest) = ''/>'' @ replace (rxOf k) rest"
    using passRx_rxOf by (rule replace_inert) (simp add: inert_def)
  finally show ?thesis using True by simp
next
  case False
  with assms(1) have k: "k = 2" by simp
  from assms(4) obtain c a' where a: "a = Plain c # a'" and c: "isSpace c"
    by (cases a rule: spaced.cases) auto
  from assms(3) a have "list_all notAngle (attrsAt 2 a')"
    by (intro attrsAt_2_notAngle) simp
  from selfClosing_void_tag [OF assms(2) c this, of rest] obtain ts where
    "ends selfClosingRx ((CHR ''<'' # n @ attrsAt 2 a @ ''/>'') @ rest) = rest # ts"
    by (auto simp: a)
  then have "replace selfClosingRx ((CHR ''<'' # n @ attrsAt 2 a @ ''/>'') @ rest) =
             replicate (length n + length (attrsAt 3 a) + 3) CHR '' '' @ replace selfClosingRx rest"
    by (rule replace_match_length) simp_all
  then show ?thesis by (simp add: k)
qed

lemma pass_less:
  assumes "k < 3" and "inert c" and "\<not> isNameChar c" and "c \<noteq> CHR ''!''"
  shows "replace (rxOf k) ([CHR ''<'', c] @ rest) = [CHR ''<'', c] @ replace (rxOf k) rest"
proof -
  have "matchAt commentRx (CHR ''<'' # c # rest) = None"
    using assms(4) by (intro comment_no_open) simp
  moreover have "matchAt quotedRx (CHR ''<'' # c # rest) = None"
    by (rule quoted_no_quote) simp_all
  moreover have "matchAt selfClosingRx (CHR ''<'' # c # rest) = None"
    using assms(3) by (simp add: matchAt_None_iff selfClosingRx_def ends_Plus_Cls)
  ultimately have "matchAt (rxOf k) (CHR ''<'' # c # rest) = None"
    using three_cases [OF assms(1)] by auto
  moreover have "replace (rxOf k) ([c] @ rest) = [c] @ replace (rxOf k) rest"
    using passRx_rxOf by (rule replace_inert) (simp add: assms(2))
  ultimately show ?thesis by (simp add: replace.simps)
qed

lemma pass_all_aux:
  assumes "\<And>x rest. x \<in> set xs \<Longrightarrow>
     replace re (renderAt k x @ rest) = renderAt (Suc k) x @ replace re rest"
  shows "replace re (renderAllAt k xs @ rest) = renderAllAt (Suc k) xs @ replace re rest"
  using assms by (induction xs) simp_all

lemma pass_render:
  "k < 3 \<Longrightarrow> wellFormed x \<Longrightarrow>
   replace (rxOf k) (renderAt k x @ rest) = renderAt (Suc k) x @ replace (rxOf k) rest"
proof (induction x arbitrary: rest)
  case (Text c)
  then have "list_all inert [c]" by simp
  from replace_inert [OF passRx_rxOf this] show ?case by simp
next
  case (Quoted p)
  then show ?case by (simp add: pass_piece)
next
  case (Less c)
  from pass_less [of k c rest] Less show ?case by simp
next
  case (Comment b)
  then show ?case by (intro pass_comment) simp_all
next
  case (Void n a)
  then show ?case by (intro pass_void) simp_all
next
  case (Element n a kids)
  from Element.prems have n: "validName n" and a: "attrsOk a"
    and kids: "\<forall>x\<in>set kids. wellFormed x"
    by (simp_all add: list_all_iff)
  have ks: "replace (rxOf k) (renderAllAt k kids @ r) =
            renderAllAt (Suc k) kids @ replace (rxOf k) r" for r
    using Element.IH Element.prems(1) kids by (intro pass_all_aux) auto
  have "replace (rxOf k) (renderAt k (Element n a kids) @ rest) =
        replace (rxOf k) (CHR ''<'' # n @ attrsAt k a @ CHR ''>'' #
          (renderAllAt k kids @ CHR ''<'' # CHR ''/'' # n @ CHR ''>'' # rest))"
    by (simp add: renderAt_Element)
  also have "\<dots> = CHR ''<'' # n @ attrsAt (Suc k) a @ CHR ''>'' #
      replace (rxOf k) (renderAllAt k kids @ CHR ''<'' # CHR ''/'' # n @ CHR ''>'' # rest)"
    using Element.prems(1) n a by (rule pass_open_tag)
  also have "\<dots> = CHR ''<'' # n @ attrsAt (Suc k) a @ CHR ''>'' # renderAllAt (Suc k) kids @
      replace (rxOf k) (CHR ''<'' # CHR ''/'' # n @ CHR ''>'' # rest)"
    by (simp add: ks)
  also have "\<dots> = CHR ''<'' # n @ attrsAt (Suc k) a @ CHR ''>'' # renderAllAt (Suc k) kids @
      CHR ''<'' # CHR ''/'' # n @ CHR ''>'' # replace (rxOf k) rest"
    using n by (simp add: replace_close)
  finally show ?case by (simp add: renderAt_Element)
qed

lemma pass_renderAll:
  "k < 3 \<Longrightarrow> list_all wellFormed xs \<Longrightarrow>
   replace (rxOf k) (renderAllAt k xs @ rest) = renderAllAt (Suc k) xs @ replace (rxOf k) rest"
  by (intro pass_all_aux pass_render) (auto simp: list_all_iff)

lemma normalize_stages:
  assumes "\<And>k r. k < 3 \<Longrightarrow> replace (rxOf k) (f k @ r) = f (Suc k) @ replace (rxOf k) r"
  shows "normalize (f 0 @ rest) = f 3 @ normalize rest"
proof -
  have "replace commentRx (f 0 @ r) = f (Suc 0) @ replace commentRx r" for r
    using assms [of 0 r] by simp
  moreover have "replace quotedRx (f (Suc 0) @ r) = f 2 @ replace quotedRx r" for r
    using assms [of "Suc 0" r] by (simp add: numeral_2_eq_2)
  moreover have "replace selfClosingRx (f 2 @ r) = f 3 @ replace selfClosingRx r" for r
    using assms [of 2 r] by (simp add: numeral_3_eq_3 numeral_2_eq_2)
  ultimately show ?thesis by (simp add: normalize_def)
qed

lemma normalize_attrs:
  assumes "list_all pieceOk a"
  shows "normalize (renderAttrs a @ rest) = attrsAt 3 a @ normalize rest"
  using normalize_stages [of "\<lambda>k. attrsAt k a" rest] pass_attrs [OF _ assms]
  by (simp add: attrsAt_low)

lemma normalize_renderAll:
  assumes "list_all wellFormed xs"
  shows "normalize (renderAll xs @ rest) = renderAllAt 3 xs @ normalize rest"
  using normalize_stages [of "\<lambda>k. renderAllAt k xs" rest] pass_renderAll [OF _ assms]
  by (simp add: renderAllAt_0)

subsection \<open>Scanning over a well-formed segment\<close>

lemma skipsD:
  "skips L seg \<Longrightarrow> c = pre @ seg @ rest \<Longrightarrow> L c (length pre) st = L c (length pre + length seg) st"
  by (simp add: skips_def)

lemma skips_Nil: "skips L []"
  by (simp add: skips_def)

lemma skips_append:
  assumes "skips L a" and "skips L b"
  shows "skips L (a @ b)"
  unfolding skips_def
proof (intro allI)
  fix pre rest st
  let ?c = "pre @ (a @ b) @ rest"
  have "L ?c (length pre) st = L ?c (length pre + length a) st"
    using assms(1) by (rule skipsD) simp
  also have "\<dots> = L ?c (length (pre @ a)) st" by simp
  also have "\<dots> = L ?c (length (pre @ a) + length b) st"
    using assms(2) by (rule skipsD) simp
  finally show "L ?c (length pre) st = L ?c (length pre + length (a @ b)) st"
    by (simp add: add.assoc)
qed

lemma endLoop_exec_cong:
  "exec c i = exec c i' \<Longrightarrow> findMatchedEndTag_loop name c i st = findMatchedEndTag_loop name c i' st"
  by (simp add: findMatchedEndTag_loop.simps [of name c i st]
      findMatchedEndTag_loop.simps [of name c i' st])

lemma startLoop_exec_cong:
  "exec c i = exec c i' \<Longrightarrow>
   findMatchedStartTag_loop name c i st = findMatchedStartTag_loop name c i' st"
  by (simp add: findMatchedStartTag_loop.simps [of name c i st]
      findMatchedStartTag_loop.simps [of name c i' st])

lemma skips_plain_end:
  "\<forall>c\<in>set u. c \<noteq> CHR ''<'' \<Longrightarrow> skips (findMatchedEndTag_loop name) u"
  unfolding skips_def by (intro allI endLoop_exec_cong exec_skip)

lemma skips_plain_start:
  "\<forall>c\<in>set u. c \<noteq> CHR ''<'' \<Longrightarrow> skips (findMatchedStartTag_loop name) u"
  unfolding skips_def by (intro allI startLoop_exec_cong exec_skip)

lemma exec_open:
  assumes "validName n" and "c = pre @ CHR ''<'' # n @ rest"
    and "rest = [] \<or> \<not> isNameChar (hd rest)"
  shows "exec c (length pre) = Some (length pre, StartName n, length pre + Suc (length n))"
proof -
  have "tagAt (CHR ''<'' # n @ rest) = Some (StartName n, Suc (length n))"
    using assms(1,3) by (rule tagAt_open)
  from exec_at [OF this, of pre] assms(2) show ?thesis by simp
qed

lemma exec_close:
  assumes "validName n" and "c = pre @ CHR ''<'' # CHR ''/'' # n @ CHR ''>'' # rest"
  shows "exec c (length pre) = Some (length pre, EndName n, length pre + (length n + 3))"
  using exec_at [OF tagAt_close [OF assms(1), of rest], of pre] assms(2) by simp

lemma attrsAt_high: "2 \<le> k \<Longrightarrow> attrsAt k a = attrsAt 2 a"
proof (induction a)
  case Nil
  show ?case by simp
next
  case (Cons p a)
  then show ?case by (cases p) simp_all
qed

lemma attrsAt_3_plain: "list_all pieceOk a \<Longrightarrow> \<forall>c\<in>set (attrsAt 3 a). c \<noteq> CHR ''<''"
  using attrsAt_2_notAngle [of a] attrsAt_high [of 3 a]
  by (auto simp: list_all_iff notAngle_def)

lemma attrsAt_3_hd:
  "delimited a \<Longrightarrow> attrsAt 3 a @ CHR ''>'' # t = [] \<or> \<not> isNameChar (hd (attrsAt 3 a @ CHR ''>'' # t))"
  using attrsAt_2_hd [of a] attrsAt_high [of 3 a] by (cases "attrsAt 2 a") auto

lemma skips_renderAllAt:
  "(\<And>x. x \<in> set xs \<Longrightarrow> skips L (renderAt k x)) \<Longrightarrow> skips L (renderAllAt k xs)"
  by (induction xs) (simp_all add: skips_Nil skips_append)

lemma skips_blanks_end: "skips (findMatchedEndTag_loop name) (replicate m CHR '' '')"
  by (rule skips_plain_end) simp

lemma skips_blanks_start: "skips (findMatchedStartTag_loop name) (replicate m CHR '' '')"
  by (rule skips_plain_start) simp

lemma skips_attrs_end:
  "list_all pieceOk a \<Longrightarrow> skips (findMatchedEndTag_loop name) (attrsAt 3 a @ ''>'')"
  using attrsAt_3_plain [of a] by (intro skips_plain_end) auto

lemma skips_attrs_start:
  "list_all pieceOk a \<Longrightarrow> skips (findMatchedStartTag_loop name) (attrsAt 3 a @ ''>'')"
  using attrsAt_3_plain [of a] by (intro skips_plain_start) auto

lemma pieceAt_3_plain: "pieceOk p \<Longrightarrow> \<forall>c\<in>set (pieceAt 3 p). c \<noteq> CHR ''<''"
  by (cases p) (simp_all add: inert_def)

lemma exec_less:
  assumes "\<not> isNameChar c" and "c \<noteq> CHR ''/''" and "c \<noteq> CHR ''<''"
  shows "exec (pre @ [CHR ''<'', c] @ rest) (length pre) =
         exec (pre @ [CHR ''<'', c] @ rest) (length pre + length [CHR ''<'', c])"
proof -
  let ?c = "pre @ [CHR ''<'', c] @ rest"
  have "tagAt (CHR ''<'' # c # rest) = None"
    using assms(1,2)
    by (simp add: tagAt_def matchAt_startTagRx matchAt_endTagRx split: list.splits)
  then have "exec ?c (length pre) = exec ?c (Suc (length pre))"
    by (simp add: exec.simps [of "pre @ CHR ''<'' # c # rest" "length pre"])
  also have "\<dots> = exec ((pre @ ''<'') @ [c] @ rest) (length (pre @ ''<''))" by simp
  also have "\<dots> = exec ((pre @ ''<'') @ [c] @ rest) (length (pre @ ''<'') + length [c])"
    by (rule exec_skip) (simp add: assms(3))
  finally show ?thesis by simp
qed

lemma skips_less_end:
  "\<not> isNameChar c \<Longrightarrow> c \<noteq> CHR ''/'' \<Longrightarrow> c \<noteq> CHR ''<'' \<Longrightarrow>
   skips (findMatchedEndTag_loop name) [CHR ''<'', c]"
  unfolding skips_def by (intro allI endLoop_exec_cong exec_less)

lemma skips_less_start:
  "\<not> isNameChar c \<Longrightarrow> c \<noteq> CHR ''/'' \<Longrightarrow> c \<noteq> CHR ''<'' \<Longrightarrow>
   skips (findMatchedStartTag_loop name) [CHR ''<'', c]"
  unfolding skips_def by (intro allI startLoop_exec_cong exec_less)

lemma skips_render_end:
  "wellFormed x \<Longrightarrow> skips (findMatchedEndTag_loop name) (renderAt 3 x)"
proof (induction x)
  case (Text c)
  then show ?case by (intro skips_plain_end) (simp add: inert_def)
next
  case (Quoted p)
  then show ?case using pieceAt_3_plain [of p] by (intro skips_plain_end) simp
next
  case (Less c)
  then show ?case using skips_less_end [of c name] by (simp add: inert_def)
next
  case (Comment b)
  show ?case using skips_blanks_end [of name "length b + 7"] by simp
next
  case (Void n a)
  show ?case using skips_blanks_end [of name "length n + length (attrsAt 3 a) + 3"] by simp
next
  case (Element n a kids)
  let ?L = "findMatchedEndTag_loop name"
  let ?A = "attrsAt 3 a"
  let ?R = "renderAllAt 3 kids"
  from Element.prems have n: "validName n" and a: "list_all pieceOk a" "delimited a"
    and kids: "\<forall>k\<in>set kids. wellFormed k"
    by (simp_all add: list_all_iff attrsOk_def)
  have "skips ?L (?A @ ''>'')" using a(1) by (rule skips_attrs_end)
  moreover have "skips ?L ?R"
    using Element.IH kids by (intro skips_renderAllAt) simp
  ultimately have inner: "skips ?L ((?A @ ''>'') @ ?R)" by (rule skips_append)
  show ?case
    unfolding skips_def
  proof (intro allI)
    fix pre rest st
    let ?c = "pre @ renderAt 3 (Element n a kids) @ rest"
    let ?p1 = "pre @ CHR ''<'' # n"
    let ?p2 = "pre @ CHR ''<'' # n @ ?A @ CHR ''>'' # ?R"
    have "exec ?c (length pre) = Some (length pre, StartName n, length pre + Suc (length n))"
      using n
    proof (rule exec_open)
      show "?c = pre @ CHR ''<'' # n @
              (?A @ CHR ''>'' # ?R @ CHR ''<'' # CHR ''/'' # n @ CHR ''>'' # rest)"
        by (simp add: renderAt_Element)
      show "?A @ CHR ''>'' # ?R @ CHR ''<'' # CHR ''/'' # n @ CHR ''>'' # rest = [] \<or>
            \<not> isNameChar (hd (?A @ CHR ''>'' # ?R @ CHR ''<'' # CHR ''/'' # n @ CHR ''>'' # rest))"
        using a(2) by (rule attrsAt_3_hd)
    qed
    then have "?L ?c (length pre) st = ?L ?c (length pre + Suc (length n)) (n # st)"
      by (rule endLoop_Start)
    also have "\<dots> = ?L ?c (length ?p1) (n # st)" by simp
    also have "\<dots> = ?L ?c (length ?p1 + length ((?A @ ''>'') @ ?R)) (n # st)"
      using inner by (rule skipsD) (simp add: renderAt_Element)
    also have "\<dots> = ?L ?c (length ?p2) (n # st)" by (simp add: add.assoc)
    also have "\<dots> = ?L ?c (length ?p2 + (length n + 3)) st"
      by (rule endLoop_End_pop, rule exec_close [OF n]) (simp add: renderAt_Element)
    finally show "?L ?c (length pre) st =
                  ?L ?c (length pre + length (renderAt 3 (Element n a kids))) st"
      by (simp add: render_Element add.assoc eval_nat_numeral)
  qed
qed

lemma skips_render_start:
  "wellFormed x \<Longrightarrow> skips (findMatchedStartTag_loop name) (renderAt 3 x)"
proof (induction x)
  case (Text c)
  then show ?case by (intro skips_plain_start) (simp add: inert_def)
next
  case (Quoted p)
  then show ?case using pieceAt_3_plain [of p] by (intro skips_plain_start) simp
next
  case (Less c)
  then show ?case using skips_less_start [of c name] by (simp add: inert_def)
next
  case (Comment b)
  show ?case using skips_blanks_start [of name "length b + 7"] by simp
next
  case (Void n a)
  show ?case using skips_blanks_start [of name "length n + length (attrsAt 3 a) + 3"] by simp
next
  case (Element n a kids)
  let ?L = "findMatchedStartTag_loop name"
  let ?A = "attrsAt 3 a"
  let ?R = "renderAllAt 3 kids"
  from Element.prems have n: "validName n" and a: "list_all pieceOk a" "delimited a"
    and kids: "\<forall>k\<in>set kids. wellFormed k"
    by (simp_all add: list_all_iff attrsOk_def)
  have "skips ?L (?A @ ''>'')" using a(1) by (rule skips_attrs_start)
  moreover have "skips ?L ?R"
    using Element.IH kids by (intro skips_renderAllAt) simp
  ultimately have inner: "skips ?L ((?A @ ''>'') @ ?R)" by (rule skips_append)
  show ?case
    unfolding skips_def
  proof (intro allI)
    fix pre rest st
    let ?c = "pre @ renderAt 3 (Element n a kids) @ rest"
    let ?p1 = "pre @ CHR ''<'' # n"
    let ?p2 = "pre @ CHR ''<'' # n @ ?A @ CHR ''>'' # ?R"
    have "exec ?c (length pre) = Some (length pre, StartName n, length pre + Suc (length n))"
      using n
    proof (rule exec_open)
      show "?c = pre @ CHR ''<'' # n @
              (?A @ CHR ''>'' # ?R @ CHR ''<'' # CHR ''/'' # n @ CHR ''>'' # rest)"
        by (simp add: renderAt_Element)
      show "?A @ CHR ''>'' # ?R @ CHR ''<'' # CHR ''/'' # n @ CHR ''>'' # rest = [] \<or>
            \<not> isNameChar (hd (?A @ CHR ''>'' # ?R @ CHR ''<'' # CHR ''/'' # n @ CHR ''>'' # rest))"
        using a(2) by (rule attrsAt_3_hd)
    qed
    then have "?L ?c (length pre) st = ?L ?c (length pre + Suc (length n)) ((n, length pre) # st)"
      by (rule startLoop_Start)
    also have "\<dots> = ?L ?c (length ?p1) ((n, length pre) # st)" by simp
    also have "\<dots> = ?L ?c (length ?p1 + length ((?A @ ''>'') @ ?R)) ((n, length pre) # st)"
      using inner by (rule skipsD) (simp add: renderAt_Element)
    also have "\<dots> = ?L ?c (length ?p2) ((n, length pre) # st)" by (simp add: add.assoc)
    also have "\<dots> = ?L ?c (length ?p2 + (length n + 3)) st"
      by (rule startLoop_End_pop, rule exec_close [OF n]) (simp add: renderAt_Element)
    finally show "?L ?c (length pre) st =
                  ?L ?c (length pre + length (renderAt 3 (Element n a kids))) st"
      by (simp add: render_Element add.assoc eval_nat_numeral)
  qed
qed

text \<open>
  The forward matcher, started behind the name of a start tag: it passes the
  rest of the tag and the content and returns the offset of the element's own
  end tag, whatever follows that end tag.
\<close>

lemma findMatchedEndTag_element:
  assumes "validName n" and "list_all pieceOk a" and "list_all wellFormed kids"
  shows "findMatchedEndTag n
           (attrsAt 3 a @ CHR ''>'' # renderAllAt 3 kids @ CHR ''<'' # CHR ''/'' # n @ CHR ''>'' # rest) =
         Some (length (renderAttrs a) + 1 + length (renderAll kids))"
proof -
  let ?L = "findMatchedEndTag_loop n"
  let ?A = "attrsAt 3 a"
  let ?R = "renderAllAt 3 kids"
  let ?c = "?A @ CHR ''>'' # ?R @ CHR ''<'' # CHR ''/'' # n @ CHR ''>'' # rest"
  have "skips ?L (?A @ ''>'')" using assms(2) by (rule skips_attrs_end)
  moreover have "skips ?L ?R"
    using assms(3) by (intro skips_renderAllAt skips_render_end) (simp add: list_all_iff)
  ultimately have inner: "skips ?L ((?A @ ''>'') @ ?R)" by (rule skips_append)
  have "?L ?c (length ([] :: string)) [] =
        ?L ?c (length ([] :: string) + length ((?A @ ''>'') @ ?R)) []"
    using inner by (rule skipsD) simp
  also have "\<dots> = ?L ?c (length (?A @ CHR ''>'' # ?R)) []" by simp
  also have "\<dots> = Some (length (?A @ CHR ''>'' # ?R))"
    by (rule endLoop_End_hit, rule exec_close [OF assms(1)]) simp
  finally show ?thesis by (simp add: findMatchedEndTag_def)
qed

subsection \<open>The text before an element\<close>

lemma renderItems_simps [simp]:
  "renderItems [] = []" "renderItems (i # ctx) = renderItem i @ renderItems ctx"
  by (simp_all add: renderItems_def)

lemma renderItems_append [simp]: "renderItems (a @ b) = renderItems a @ renderItems b"
  by (simp add: renderItems_def)

lemma renderItems_Nodes [simp]: "renderItems (map Node kids) = renderAll kids"
  by (induction kids) simp_all

lemma itemsAt_simps [simp]:
  "itemsAt k [] = []" "itemsAt k (i # ctx) = itemAt k i @ itemsAt k ctx"
  by (simp_all add: itemsAt_def)

lemma itemsAt_append [simp]: "itemsAt k (a @ b) = itemsAt k a @ itemsAt k b"
  by (simp add: itemsAt_def)

lemma itemsAt_Nodes [simp]: "itemsAt k (map Node kids) = renderAllAt k kids"
  by (induction kids) simp_all

lemma length_itemAt [simp]: "length (itemAt k i) = length (renderItem i)"
  by (cases i) simp_all

lemma length_itemsAt [simp]: "length (itemsAt k ctx) = length (renderItems ctx)"
  by (induction ctx) simp_all

lemma itemsAt_0: "itemsAt 0 ctx = renderItems ctx"
proof (induction ctx)
  case Nil
  show ?case by simp
next
  case (Cons i ctx)
  then show ?case by (cases i) (simp_all add: renderAt_0 attrsAt_low)
qed

lemma pass_items:
  "k < 3 \<Longrightarrow> list_all itemOk ctx \<Longrightarrow>
   replace (rxOf k) (itemsAt k ctx @ rest) = itemsAt (Suc k) ctx @ replace (rxOf k) rest"
proof (induction ctx)
  case Nil
  show ?case by simp
next
  case (Cons i ctx)
  show ?case
  proof (cases i)
    case (Open m a)
    with Cons.prems have m: "validName m" and a: "attrsOk a" by simp_all
    from pass_open_tag [OF Cons.prems(1) m a, of "itemsAt k ctx @ rest"] Cons Open
    show ?thesis by simp
  next
    case (Node x)
    with Cons.prems have "wellFormed x" by simp
    from pass_render [OF Cons.prems(1) this, of "itemsAt k ctx @ rest"] Cons Node
    show ?thesis by simp
  qed
qed

lemma normalize_items:
  assumes "list_all itemOk ctx"
  shows "normalize (renderItems ctx @ rest) = itemsAt 3 ctx @ normalize rest"
  using normalize_stages [of "\<lambda>k. itemsAt k ctx" rest] pass_items [OF _ assms]
  by (simp add: itemsAt_0)

lemma opened_append:
  "opened p (a @ b) = opened (p + length (renderItems a)) b @ opened p a"
proof (induction p a rule: opened.induct)
  case (1 p)
  then show ?case by simp
next
  case (2 p m a ctx)
  then show ?case by (simp add: add.assoc)
next
  case (3 p x ctx)
  then show ?case by (simp add: add.assoc)
qed

lemma opened_Nodes [simp]: "opened p (map Node kids) = []"
  by (induction kids arbitrary: p) simp_all

text \<open>
  The backward matcher, scanning the text before an end tag: each complete
  node leaves the stack as it was, each start tag that is still open adds its
  entry.
\<close>

lemma startLoop_context:
  assumes "list_all itemOk ctx" and "c = pre @ itemsAt 3 ctx @ rest"
  shows "findMatchedStartTag_loop name c (length pre) st =
         findMatchedStartTag_loop name c (length pre + length (renderItems ctx))
           (opened (length pre) ctx @ st)"
  using assms
proof (induction ctx arbitrary: pre st)
  case Nil
  then show ?case by simp
next
  case (Cons i ctx)
  let ?L = "findMatchedStartTag_loop name"
  from Cons.prems(1) have ok: "list_all itemOk ctx" by simp
  show ?case
  proof (cases i)
    case (Open m a)
    with Cons.prems have m: "validName m" and a: "list_all pieceOk a" "delimited a"
      by (simp_all add: attrsOk_def)
    let ?A = "attrsAt 3 a"
    let ?p1 = "pre @ CHR ''<'' # m"
    let ?p2 = "pre @ CHR ''<'' # m @ ?A @ ''>''"
    have c1: "c = pre @ CHR ''<'' # m @ (?A @ CHR ''>'' # (itemsAt 3 ctx @ rest))"
      using Cons.prems(2) Open by simp
    have "exec c (length pre) = Some (length pre, StartName m, length pre + Suc (length m))"
      using m c1 attrsAt_3_hd [OF a(2)] by (rule exec_open)
    then have "?L c (length pre) st = ?L c (length pre + Suc (length m)) ((m, length pre) # st)"
      by (rule startLoop_Start)
    also have "\<dots> = ?L c (length ?p1) ((m, length pre) # st)" by simp
    also have "\<dots> = ?L c (length ?p1 + length (?A @ ''>'')) ((m, length pre) # st)"
      using skips_attrs_start [OF a(1)] by (rule skipsD) (simp add: c1)
    also have "\<dots> = ?L c (length ?p2) ((m, length pre) # st)" by (simp add: add.assoc)
    also have "\<dots> = ?L c (length ?p2 + length (renderItems ctx))
                       (opened (length ?p2) ctx @ (m, length pre) # st)"
      using ok by (rule Cons.IH) (simp add: c1)
    finally show ?thesis using Open by (simp add: add.assoc)
  next
    case (Node x)
    with Cons.prems have x: "wellFormed x" by simp
    let ?p1 = "pre @ renderAt 3 x"
    have c1: "c = pre @ renderAt 3 x @ (itemsAt 3 ctx @ rest)"
      using Cons.prems(2) Node by simp
    have "?L c (length pre) st = ?L c (length pre + length (renderAt 3 x)) st"
      using skips_render_start [OF x] c1 by (rule skipsD)
    also have "\<dots> = ?L c (length ?p1) st" by simp
    also have "\<dots> = ?L c (length ?p1 + length (renderItems ctx)) (opened (length ?p1) ctx @ st)"
      using ok by (rule Cons.IH) (simp add: c1)
    finally show ?thesis using Node by (simp add: add.assoc)
  qed
qed

lemma findMatchedStartTag_in_context:
  assumes "list_all itemOk ctx" and "validName n" and "attrsOk a" and "list_all wellFormed kids"
  shows "findMatchedStartTag name (itemsAt 3 (ctx @ Open n a # map Node kids)) =
         Some (length (renderItems ctx))"
proof -
  let ?ctx = "ctx @ Open n a # map Node kids"
  let ?c = "itemsAt 3 ?ctx"
  have ok: "list_all itemOk ?ctx"
    using assms by (auto simp: list_all_iff)
  have c: "?c = [] @ itemsAt 3 ?ctx @ []" by simp
  have o: "opened 0 ?ctx = (n, length (renderItems ctx)) # opened 0 ctx"
    by (simp add: opened_append)
  from startLoop_context [OF ok c, of name "[]"]
  have "findMatchedStartTag_loop name ?c 0 [] =
        findMatchedStartTag_loop name ?c (length (renderItems ?ctx)) (opened 0 ?ctx)"
    by simp
  also have "length (renderItems ?ctx) = length ?c" by simp
  also have "findMatchedStartTag_loop name ?c (length ?c) (opened 0 ?ctx) = opened 0 ?ctx"
    by (rule startLoop_None) (rule exec_Nil_end)
  finally show ?thesis by (simp add: findMatchedStartTag_def o)
qed

subsection \<open>Offsets and positions in a document\<close>

lemma lineStart_0 [simp]: "lineStart e ls 0 = 0"
  by (simp add: lineStart_def)

lemma lineStart_Suc [simp]: "lineStart e (x # ls) (Suc l) = length x + e + lineStart e ls l"
  by (simp add: lineStart_def)

lemma locate:
  assumes "joinLines e ls = pre @ w @ post" and "w \<noteq> []" and "set w \<inter> set e = {}"
    and "e \<noteq> []"
  shows "\<exists>l A B. l < length ls \<and> ls ! l = A @ w @ B \<and> prefix B post \<and>
           length pre = lineStart (length e) ls l + length A"
  using assms
proof (induction e ls arbitrary: pre rule: joinLines.induct)
  case (1 e)
  then show ?case by simp
next
  case (2 e x)
  then have "[x] ! 0 = pre @ w @ post \<and> prefix post post \<and>
             length pre = lineStart (length e) [x] 0 + length pre"
    by simp
  then show ?case by blast
next
  case (3 e x y ys)
  let ?J = "joinLines e (y # ys)"
  note w = \<open>w \<noteq> []\<close> and disj = \<open>set w \<inter> set e = {}\<close> and e = \<open>e \<noteq> []\<close>
  from "3.prems"(1) have eq: "x @ e @ ?J = pre @ w @ post" by simp
  consider (inside) "length pre + length w \<le> length x"
    | (later) "length x + length e \<le> length pre"
    | (across) "length x < length pre + length w" "length pre < length x + length e"
    by linarith
  then show ?case
  proof cases
    case inside
    from eq have "take (length pre + length w) (x @ e @ ?J) =
                  take (length pre + length w) (pre @ w @ post)"
      by simp
    with inside have "take (length pre + length w) x = pre @ w" by simp
    then have x: "x = (pre @ w) @ drop (length pre + length w) x"
      by (metis append_take_drop_id)
    with eq have "(pre @ w) @ drop (length pre + length w) x @ e @ ?J = (pre @ w) @ post"
      by (metis append_assoc)
    then have "post = drop (length pre + length w) x @ e @ ?J" by simp
    then have "prefix (drop (length pre + length w) x) post" by simp
    with x have "(x # y # ys) ! 0 = pre @ w @ drop (length pre + length w) x \<and>
               prefix (drop (length pre + length w) x) post \<and>
               length pre = lineStart (length e) (x # y # ys) 0 + length pre"
      by simp
    then show ?thesis by (intro exI [of _ 0]) blast
  next
    case later
    from eq have "take (length x + length e) (x @ e @ ?J) =
                  take (length x + length e) (pre @ w @ post)"
      by simp
    with later have xe: "x @ e = take (length x + length e) pre" by simp
    then have pre: "pre = (x @ e) @ drop (length x + length e) pre"
      by (metis append_take_drop_id)
    let ?pre' = "drop (length x + length e) pre"
    from eq pre have "(x @ e) @ ?J = (x @ e) @ ?pre' @ w @ post"
      by (metis append_assoc)
    then have "?J = ?pre' @ w @ post" by simp
    from "3.IH" [OF this w disj e] obtain l A B where l: "l < length (y # ys)"
      and line: "(y # ys) ! l = A @ w @ B" and B: "prefix B post"
      and len: "length ?pre' = lineStart (length e) (y # ys) l + length A"
      by blast
    from later len have "length pre = lineStart (length e) (x # y # ys) (Suc l) + length A"
      by simp
    with l line B show ?thesis by (intro exI [of _ "Suc l"]) auto
  next
    case across
    define i where "i = max (length pre) (length x)"
    have i: "length pre \<le> i" "i < length pre + length w" "length x \<le> i"
      "i < length x + length e"
      using across w e by (auto simp: i_def)
    have ie: "i - length x < length e" and iw: "i - length pre < length w"
      using i by linarith+
    have "(x @ e @ ?J) ! i = e ! (i - length x)"
      using i ie by (simp add: nth_append)
    moreover have "(pre @ w @ post) ! i = w ! (i - length pre)"
      using i iw by (simp add: nth_append)
    moreover have "e ! (i - length x) \<in> set e" using ie by (rule nth_mem)
    moreover have "w ! (i - length pre) \<in> set w" using iw by (rule nth_mem)
    ultimately have False using eq disj by (metis disjoint_iff)
    then show ?thesis ..
  qed
qed

lemma positionAt_from_line:
  "l < length ls \<Longrightarrow> c \<le> length (ls ! l) \<Longrightarrow> 0 < e \<Longrightarrow>
   positionAt_from ls e n (lineStart e ls l + c) = Position (n + l) c"
proof (induction ls e n "lineStart e ls l + c" arbitrary: l c rule: positionAt_from.induct)
  case (1 e n)
  then show ?case by simp
next
  case (2 x e n)
  then show ?case by simp
next
  case (3 x y ys e n)
  show ?case
  proof (cases l)
    case 0
    with "3.prems" show ?thesis by simp
  next
    case (Suc l')
    with "3.prems" have "positionAt_from (y # ys) e (Suc n) (lineStart e (y # ys) l' + c) =
                         Position (Suc n + l') c"
      by (intro "3.hyps") auto
    with Suc show ?thesis by simp
  qed
qed

lemma validatePosition_id:
  "l < length (lines doc) \<Longrightarrow> c \<le> length (lines doc ! l) \<Longrightarrow>
   validatePosition doc (Position l c) = Position l c"
  by (simp add: validatePosition_def)

lemma offsetAt_line:
  "l < length (lines doc) \<Longrightarrow> c \<le> length (lines doc ! l) \<Longrightarrow>
   offsetAt doc (Position l c) = lineStart (length (eol doc)) (lines doc) l + c"
  by (simp add: offsetAt_def validatePosition_id lineStart_def)

lemma getTextIn_line:
  "l < length (lines doc) \<Longrightarrow> a \<le> b \<Longrightarrow> b \<le> length (lines doc ! l) \<Longrightarrow>
   getTextIn doc (Range (Position l a) (Position l b)) = take (b - a) (drop a (lines doc ! l))"
  by (simp add: getTextIn_def validatePosition_id)

lemma newRange_line:
  "a \<le> b \<Longrightarrow> newRange (Position l a) (Position l b) = Range (Position l a) (Position l b)"
  by (auto simp: newRange_def isBefore_def)

lemma prev_line:
  "l < length (lines doc) \<Longrightarrow> k \<le> c \<Longrightarrow> c \<le> length (lines doc ! l) \<Longrightarrow>
   prev doc (Position l c) k = Inr (take k (drop (c - k) (lines doc ! l)))"
  by (simp add: prev_def newPosition_def newRange_line getTextIn_line nat_diff_distrib')

lemma prev_throws:
  "c < k \<Longrightarrow> prev doc (Position l c) k = Inl IllegalArgument"
  by (simp add: prev_def newPosition_def)

lemma next_line:
  "l < length (lines doc) \<Longrightarrow> c + k \<le> length (lines doc ! l) \<Longrightarrow>
   next doc (Position l c) k = Inr (take k (drop c (lines doc ! l)))"
  by (simp add: next_def newPosition_def newRange_line getTextIn_line nat_int_add)

subsection \<open>provideDocumentHighlights at a tag name\<close>

lemma located_token:
  assumes "eolOk doc" and "getText doc = pre @ w @ post" and "w \<noteq> []"
    and "CHR 0x0A \<notin> set w" and "CHR 0x0D \<notin> set w"
  obtains l A B where "l < length (lines doc)" and "lines doc ! l = A @ w @ B"
    and "prefix B post"
    and "\<And>k. k \<le> length w \<Longrightarrow> positionAt doc (length pre + k) = Position l (length A + k)"
    and "\<And>k. k \<le> length w \<Longrightarrow> offsetAt doc (Position l (length A + k)) = length pre + k"
proof -
  from assms(1) have e: "eol doc \<noteq> []" and "set (eol doc) \<subseteq> {CHR 0x0A, CHR 0x0D}"
    by (auto simp: eolOk_def)
  with assms(4,5) have disj: "set w \<inter> set (eol doc) = {}" by auto
  from assms(2) have "joinLines (eol doc) (lines doc) = pre @ w @ post"
    by (simp add: getText_def)
  from locate [OF this assms(3) disj e] obtain l A B where l: "l < length (lines doc)"
    and line: "lines doc ! l = A @ w @ B" and B: "prefix B post"
    and len: "length pre = lineStart (length (eol doc)) (lines doc) l + length A"
    by blast
  have "positionAt doc (length pre + k) = Position l (length A + k)" if "k \<le> length w" for k
  proof -
    have "positionAt_from (lines doc) (length (eol doc)) 0
            (lineStart (length (eol doc)) (lines doc) l + (length A + k)) =
          Position (0 + l) (length A + k)"
      using l line that e by (intro positionAt_from_line) simp_all
    with len show ?thesis by (simp add: positionAt_def add.assoc)
  qed
  moreover have "offsetAt doc (Position l (length A + k)) = length pre + k"
    if "k \<le> length w" for k
    using offsetAt_line [of l doc "length A + k"] l line that len by simp
  ultimately show ?thesis using l line B that by blast
qed

lemma wordRange_in_line:
  assumes "l < length (lines doc)" and "lines doc ! l = A @ n @ B" and "validName n"
    and "A = [] \<or> \<not> isNameChar (last A)" and "B = [] \<or> \<not> isNameChar (hd B)"
    and "k \<le> length n"
  shows "getWordRangeAtPosition doc (Position l (length A + k)) =
         Some (Range (Position l (length A)) (Position l (length A + length n)))"
proof -
  from assms(3) have n: "n \<noteq> []" "list_all isNameChar n" by (simp_all add: validName_def)
  have v: "validatePosition doc (Position l (length A + k)) = Position l (length A + k)"
    using assms(1,2,6) by (intro validatePosition_id) simp_all
  have "rev (take (length A + k) (A @ n @ B)) = rev (take k n) @ rev A"
    using assms(6) by simp
  moreover have "takeWhile isNameChar (rev (take k n) @ rev A) = rev (take k n)"
  proof (rule takeWhile_run)
    show "list_all isNameChar (rev (take k n))"
      using n(2) by (auto simp: list_all_iff dest: in_set_takeD)
    show "rev A = [] \<or> \<not> isNameChar (hd (rev A))"
      using assms(4) by (auto simp: hd_rev)
  qed
  ultimately have before:
    "length (takeWhile isNameChar (rev (take (length A + k) (A @ n @ B)))) = k"
    using assms(6) by simp
  have "drop (length A + k) (A @ n @ B) = drop k n @ B"
    using assms(6) by simp
  moreover have "takeWhile isNameChar (drop k n @ B) = drop k n"
  proof (rule takeWhile_run)
    show "list_all isNameChar (drop k n)"
      using n(2) by (auto simp: list_all_iff dest: in_set_dropD)
    show "B = [] \<or> \<not> isNameChar (hd B)" by (rule assms(5))
  qed
  ultimately have after:
    "length (takeWhile isNameChar (drop (length A + k) (A @ n @ B))) = length n - k"
    by simp
  from n(1) have "0 < length n" by simp
  with v before after assms(2,6) show ?thesis
    by (simp add: getWordRangeAtPosition_def Let_def)
qed

lemma name_range:
  assumes "eolOk doc" and "getText doc = pre @ n @ post" and "validName n"
  shows "newRange (positionAt doc (length pre)) (positionAt doc (length pre + length n)) =
         Range (positionAt doc (length pre)) (positionAt doc (length pre + length n))"
    and "getTextIn doc (Range (positionAt doc (length pre)) (positionAt doc (length pre + length n))) = n"
proof -
  from assms(3) have n: "n \<noteq> []" "CHR 0x0A \<notin> set n" "CHR 0x0D \<notin> set n"
    by (auto simp: validName_def list_all_iff)
  from located_token [OF assms(1,2) n] obtain l A B where l: "l < length (lines doc)"
    and line: "lines doc ! l = A @ n @ B"
    and pos: "\<And>k. k \<le> length n \<Longrightarrow> positionAt doc (length pre + k) = Position l (length A + k)"
    by metis
  from pos [of 0] pos [of "length n"]
  have p: "positionAt doc (length pre) = Position l (length A)"
    "positionAt doc (length pre + length n) = Position l (length A + length n)"
    by simp_all
  show "newRange (positionAt doc (length pre)) (positionAt doc (length pre + length n)) =
        Range (positionAt doc (length pre)) (positionAt doc (length pre + length n))"
    by (simp add: p newRange_line)
  show "getTextIn doc (Range (positionAt doc (length pre)) (positionAt doc (length pre + length n))) = n"
    using l line by (simp add: p getTextIn_line)
qed

lemma start_anchor:
  assumes "eolOk doc" and "getText doc = pre @ CHR ''<'' # n @ d # post" and "validName n"
    and "\<not> isNameChar d" and "k \<le> length n"
  shows "provideDocumentHighlights doc (positionAt doc (Suc (length pre) + k)) =
     (if test selfCloseTestRx (normalize (d # post))
      then Inr [Range (positionAt doc (Suc (length pre)))
                  (positionAt doc (Suc (length pre) + length n))]
      else case findMatchedEndTag n (normalize (d # post)) of
             None \<Rightarrow>
               Inr [Range (positionAt doc (Suc (length pre)))
                      (positionAt doc (Suc (length pre) + length n))]
           | Some j \<Rightarrow>
               Inr [Range (positionAt doc (Suc (length pre)))
                      (positionAt doc (Suc (length pre) + length n)),
                    newRange (positionAt doc (Suc (length pre) + length n + j + 2))
                      (positionAt doc (Suc (length pre) + length n + j + 2 + length n))])"
proof -
  let ?w = "CHR ''<'' # n"
  from assms(3) have n: "n \<noteq> []" "CHR 0x0A \<notin> set n" "CHR 0x0D \<notin> set n"
    by (auto simp: validName_def list_all_iff)
  have doctext: "getText doc = pre @ ?w @ (d # post)" using assms(2) by simp
  have w: "?w \<noteq> []" "CHR 0x0A \<notin> set ?w" "CHR 0x0D \<notin> set ?w"
    using n by auto
  from located_token [OF assms(1) doctext w] obtain l A B where l: "l < length (lines doc)"
    and line: "lines doc ! l = A @ ?w @ B" and B: "prefix B (d # post)"
    and pos: "\<And>k. k \<le> length ?w \<Longrightarrow> positionAt doc (length pre + k) = Position l (length A + k)"
    and off: "\<And>k. k \<le> length ?w \<Longrightarrow> offsetAt doc (Position l (length A + k)) = length pre + k"
    by metis
  define a where "a = length (A @ ''<'')"
  define R0 where "R0 = Range (Position l a) (Position l (a + length n))"
  have line': "lines doc ! l = (A @ ''<'') @ n @ B" using line by simp
  from B assms(4) have B': "B = [] \<or> \<not> isNameChar (hd B)"
    by (cases B) (auto simp: prefix_Cons)
  have p: "positionAt doc (Suc (length pre) + j) = Position l (a + j)" if "j \<le> length n" for j
    using pos [of "Suc j"] that by (simp add: a_def)
  have word: "getWordRangeAtPosition doc (Position l (a + k)) = Some R0"
    unfolding a_def R0_def
    using l line' assms(3) _ B' assms(5) by (rule wordRange_in_line) simp
  have name: "getTextIn doc R0 = n"
    using l line' by (simp add: R0_def a_def getTextIn_line)
  have rs: "range_start R0 = Position l a" "range_end R0 = Position l (a + length n)"
    by (simp_all add: R0_def)
  have before: "prev doc (Position l a) (Suc 0) = Inr ''<''"
    using l line' by (simp add: a_def prev_line)
  have offs: "offsetAt doc (Position l (a + length n)) = Suc (length pre) + length n"
    using off [of "Suc (length n)"] by (simp add: a_def)
  have tail: "drop (Suc (length pre + length n)) (getText doc) = d # post"
    using assms(2) by simp
  have main: "provideDocumentHighlights doc (Position l (a + k)) =
     (if test selfCloseTestRx (normalize (d # post)) then Inr [R0]
      else case findMatchedEndTag n (normalize (d # post)) of
             None \<Rightarrow> Inr [R0]
           | Some j \<Rightarrow>
               Inr [R0, newRange (positionAt doc (Suc (length pre) + length n + j + 2))
                          (positionAt doc (Suc (length pre) + length n + j + 2 + length n))])"
    by (simp add: provideDocumentHighlights_def word name rs before offs tail Let_def
        split: option.splits)
  have pk: "positionAt doc (Suc (length pre) + k) = Position l (a + k)"
    using assms(5) by (rule p)
  have R0': "Range (positionAt doc (Suc (length pre)))
               (positionAt doc (Suc (length pre) + length n)) = R0"
    using p [of 0] p [of "length n"] by (simp add: R0_def)
  show ?thesis by (simp only: pk R0' main)
qed

lemma end_anchor:
  assumes "eolOk doc" and "getText doc = pre @ CHR ''<'' # CHR ''/'' # n @ CHR ''>'' # post"
    and "validName n" and "k \<le> length n"
  shows "provideDocumentHighlights doc (positionAt doc (length pre + 2 + k)) =
     (case findMatchedStartTag n (normalize pre) of
        None \<Rightarrow>
          Inr [Range (positionAt doc (length pre + 2)) (positionAt doc (length pre + 2 + length n))]
      | Some j \<Rightarrow>
          Inr [Range (positionAt doc (length pre + 2)) (positionAt doc (length pre + 2 + length n)),
               newRange (positionAt doc (j + 1)) (positionAt doc (j + 1 + length n))])"
proof -
  let ?w = "CHR ''<'' # CHR ''/'' # n @ ''>''"
  from assms(3) have n: "n \<noteq> []" "CHR 0x0A \<notin> set n" "CHR 0x0D \<notin> set n"
    by (auto simp: validName_def list_all_iff)
  have doctext: "getText doc = pre @ ?w @ post" using assms(2) by simp
  have w: "?w \<noteq> []" "CHR 0x0A \<notin> set ?w" "CHR 0x0D \<notin> set ?w"
    using n by auto
  from located_token [OF assms(1) doctext w] obtain l A B where l: "l < length (lines doc)"
    and line: "lines doc ! l = A @ ?w @ B"
    and pos: "\<And>k. k \<le> length ?w \<Longrightarrow> positionAt doc (length pre + k) = Position l (length A + k)"
    and off: "\<And>k. k \<le> length ?w \<Longrightarrow> offsetAt doc (Position l (length A + k)) = length pre + k"
    by metis
  define a where "a = length (A @ ''</'')"
  define R0 where "R0 = Range (Position l a) (Position l (a + length n))"
  have line': "lines doc ! l = (A @ ''</'') @ n @ (CHR ''>'' # B)" using line by simp
  have p: "positionAt doc (length pre + 2 + j) = Position l (a + j)" if "j \<le> length n" for j
    using pos [of "2 + j"] that by (simp add: a_def add.assoc)
  have word: "getWordRangeAtPosition doc (Position l (a + k)) = Some R0"
    unfolding a_def R0_def
    using l line' assms(3) _ _ assms(4) by (rule wordRange_in_line) simp_all
  have name: "getTextIn doc R0 = n"
    using l line' by (simp add: R0_def a_def getTextIn_line)
  have rs: "range_start R0 = Position l a" "range_end R0 = Position l (a + length n)"
    by (simp_all add: R0_def)
  have before1: "prev doc (Position l a) (Suc 0) = Inr ''/''"
    using l line' by (simp add: a_def prev_line)
  have before2: "prev doc (Position l a) 2 = Inr ''</''"
    using l line' by (simp add: a_def prev_line)
  have after1: "next doc (Position l (a + length n)) (Suc 0) = Inr ''>''"
    using l line' by (simp add: a_def next_line)
  have offs: "offsetAt doc (Position l a) = length pre + 2"
    using off [of 2] by (simp add: a_def)
  have head: "take (length pre) (getText doc) = pre"
    using assms(2) by simp
  have main: "provideDocumentHighlights doc (Position l (a + k)) =
     (case findMatchedStartTag n (normalize pre) of
        None \<Rightarrow> Inr [R0]
      | Some j \<Rightarrow> Inr [R0, newRange (positionAt doc (j + 1)) (positionAt doc (j + 1 + length n))])"
    by (simp add: provideDocumentHighlights_def word name rs before1 before2 after1 offs head
        Let_def split: option.splits)
  have pk: "positionAt doc (length pre + 2 + k) = Position l (a + k)"
    using assms(4) by (rule p)
  have R0': "Range (positionAt doc (length pre + 2))
               (positionAt doc (length pre + 2 + length n)) = R0"
    using p [of 0] p [of "length n"] by (simp add: R0_def)
  show ?thesis by (simp only: pk R0' main)
qed

subsection \<open>An element of a document\<close>

lemma test_slash_gt: "test selfCloseTestRx (CHR ''/'' # CHR ''>'' # t)"
  by (simp add: test_def matchAt_None_iff selfCloseTestRx_def ends_Star_Cls notAngle_def)



lemma attrs_delimiter:
  assumes "delimited a"
  obtains d t' where "renderAttrs a @ CHR ''>'' # t = d # t'" and "\<not> isNameChar d"
proof (cases a)
  case Nil
  then have "renderAttrs a @ CHR ''>'' # t = CHR ''>'' # t" by simp
  then show ?thesis by (rule that) simp
next
  case (Cons p a')
  show ?thesis
  proof (cases p)
    case (Plain c)
    with Cons assms have "\<not> isNameChar c" by simp
    moreover from Cons Plain have "renderAttrs a @ CHR ''>'' # t = c # (renderAttrs a' @ CHR ''>'' # t)"
      by simp
    ultimately show ?thesis by (intro that)
  next
    case (DQuoted v)
    with Cons have "renderAttrs a @ CHR ''>'' # t =
        CHR 0x22 # (v @ [CHR 0x22] @ renderAttrs a' @ CHR ''>'' # t)"
      by simp
    then show ?thesis by (rule that) simp
  next
    case (SQuoted v)
    with Cons have "renderAttrs a @ CHR ''>'' # t =
        CHR 0x27 # (v @ [CHR 0x27] @ renderAttrs a' @ CHR ''>'' # t)"
      by simp
    then show ?thesis by (rule that) simp
  qed
qed

lemma normalize_element_tail:
  assumes "validName n" and "list_all pieceOk a" and "list_all wellFormed kids"
  shows "normalize (renderAttrs a @ CHR ''>'' # renderAll kids @ CHR ''<'' # CHR ''/'' # n @ CHR ''>'' # post) =
         attrsAt 3 a @ CHR ''>'' # renderAllAt 3 kids @ CHR ''<'' # CHR ''/'' # n @ CHR ''>'' # normalize post"
proof -
  let ?t = "CHR ''<'' # CHR ''/'' # n @ CHR ''>'' # post"
  have "normalize (renderAttrs a @ ''>'' @ renderAll kids @ ?t) =
        attrsAt 3 a @ normalize (''>'' @ renderAll kids @ ?t)"
    using assms(2) by (rule normalize_attrs)
  also have "normalize (''>'' @ renderAll kids @ ?t) = ''>'' @ normalize (renderAll kids @ ?t)"
    by (rule normalize_inert) (simp add: inert_def)
  also have "normalize (renderAll kids @ ?t) = renderAllAt 3 kids @ normalize ?t"
    using assms(3) by (rule normalize_renderAll)
  also have "normalize ?t = CHR ''<'' # CHR ''/'' # n @ CHR ''>'' # normalize post"
    using assms(1) by (rule normalize_close)
  finally show ?thesis by simp
qed

lemma test_element_tail:
  assumes "attrsOk a"
  shows "\<not> test selfCloseTestRx (attrsAt 3 a @ CHR ''>'' # t)"
proof -
  from assms have a: "list_all pieceOk a" "a = [] \<or> last a \<noteq> Plain CHR ''/''"
    by (simp_all add: attrsOk_def)
  have "\<not> test selfCloseTestRx (attrsAt 2 a @ CHR ''>'' # t)"
    using attrsAt_2_notAngle [OF a(1)] attrsAt_2_last [OF a(2)] by (rule test_open_tag)
  then show ?thesis by (simp add: attrsAt_high [of 3 a])
qed

lemma start_anchor_element:
  assumes "validName n" and "attrsOk a" and "list_all wellFormed kids" and "eolOk doc"
    and "getText doc = pre @ render (Element n a kids) @ post" and "k \<le> length n"
  shows "provideDocumentHighlights doc (positionAt doc (length pre + 1 + k)) =
         Inr [nameRange doc (length pre + 1) (length n),
              nameRange doc (length pre + length n + length (renderAttrs a) + length (renderAll kids) + 4)
                (length n)]"
proof -
  let ?R = "renderAll kids"
  let ?A = "renderAttrs a"
  let ?tl = "?R @ CHR ''<'' # CHR ''/'' # n @ CHR ''>'' # post"
  let ?N = "attrsAt 3 a @ CHR ''>'' # renderAllAt 3 kids @ CHR ''<'' # CHR ''/'' # n @ CHR ''>'' #
            normalize post"
  from assms(2) have a: "list_all pieceOk a" "delimited a" by (simp_all add: attrsOk_def)
  from attrs_delimiter [OF a(2), of ?tl] obtain d t' where d: "?A @ CHR ''>'' # ?tl = d # t'"
    and nd: "\<not> isNameChar d"
    by blast
  have t: "getText doc = pre @ CHR ''<'' # n @ d # t'"
    using assms(5) by (simp add: render_Element d [symmetric])
  have nt: "normalize (d # t') = ?N"
    unfolding d [symmetric] using assms(1) a(1) assms(3) by (rule normalize_element_tail)
  have nt': "\<not> test selfCloseTestRx ?N" using assms(2) by (rule test_element_tail)
  have f: "findMatchedEndTag n ?N = Some (length ?A + 1 + length ?R)"
    using assms(1) a(1) assms(3) by (rule findMatchedEndTag_element)
  have t2: "getText doc = (pre @ CHR ''<'' # n @ ?A @ CHR ''>'' # ?R @ ''</'') @ n @ (CHR ''>'' # post)"
    using assms(5) by (simp add: render_Element)
  have len: "length (pre @ CHR ''<'' # n @ ?A @ CHR ''>'' # ?R @ ''</'') =
             length pre + length n + length ?A + length ?R + 4"
    by simp
  from name_range(1) [OF assms(4) t2 assms(1)]
  have r: "newRange (positionAt doc (length pre + length n + length ?A + length ?R + 4))
             (positionAt doc (length pre + length n + length ?A + length ?R + 4 + length n)) =
           nameRange doc (length pre + length n + length ?A + length ?R + 4) (length n)"
    unfolding len by (simp add: nameRange_def)
  have e: "Suc (length pre) + length n + (length ?A + 1 + length ?R) + 2 =
           length pre + length n + length ?A + length ?R + 4"
    by simp
  from start_anchor [OF assms(4) t assms(1) nd assms(6)]
  have "provideDocumentHighlights doc (positionAt doc (Suc (length pre) + k)) =
        Inr [Range (positionAt doc (Suc (length pre)))
               (positionAt doc (Suc (length pre) + length n)),
             newRange (positionAt doc (Suc (length pre) + length n + (length ?A + 1 + length ?R) + 2))
               (positionAt doc (Suc (length pre) + length n + (length ?A + 1 + length ?R) + 2 + length n))]"
    by (simp only: nt nt' f if_False option.case)
  then show ?thesis
    unfolding e using r by (simp add: nameRange_def)
qed

lemma end_anchor_element:
  assumes "list_all itemOk ctx" and "validName n" and "attrsOk a" and "list_all wellFormed kids"
    and "eolOk doc" and "getText doc = renderItems ctx @ render (Element n a kids) @ post"
    and "k \<le> length n"
  shows "provideDocumentHighlights doc
           (positionAt doc (length (renderItems ctx) + length n + length (renderAttrs a) +
              length (renderAll kids) + 4 + k)) =
         Inr [nameRange doc (length (renderItems ctx) + length n + length (renderAttrs a) +
                length (renderAll kids) + 4) (length n),
              nameRange doc (length (renderItems ctx) + 1) (length n)]"
proof -
  let ?R = "renderAll kids"
  let ?A = "renderAttrs a"
  let ?C = "renderItems ctx"
  let ?ctx = "ctx @ Open n a # map Node kids"
  let ?pre = "renderItems ?ctx"
  have ok: "list_all itemOk ?ctx" using assms(1-4) by (auto simp: list_all_iff)
  have t: "getText doc = ?pre @ CHR ''<'' # CHR ''/'' # n @ CHR ''>'' # post"
    using assms(6) by (simp add: render_Element)
  have np: "normalize ?pre = itemsAt 3 ?ctx"
    using normalize_items [OF ok, of "[]"] by simp
  have f: "findMatchedStartTag n (itemsAt 3 ?ctx) = Some (length ?C)"
    using assms(1-4) by (rule findMatchedStartTag_in_context)
  have t1: "getText doc = (?C @ ''<'') @ n @
              (?A @ CHR ''>'' # ?R @ CHR ''<'' # CHR ''/'' # n @ CHR ''>'' # post)"
    using assms(6) by (simp add: render_Element)
  have l1: "length (?C @ ''<'') = length ?C + 1" by simp
  from name_range(1) [OF assms(5) t1 assms(2)]
  have r: "newRange (positionAt doc (length ?C + 1)) (positionAt doc (length ?C + 1 + length n)) =
           nameRange doc (length ?C + 1) (length n)"
    unfolding l1 by (simp add: nameRange_def)
  have len: "length ?pre + 2 = length ?C + length n + length ?A + length ?R + 4" by simp
  from end_anchor [OF assms(5) t assms(2,7)]
  have "provideDocumentHighlights doc (positionAt doc (length ?pre + 2 + k)) =
        Inr [Range (positionAt doc (length ?pre + 2)) (positionAt doc (length ?pre + 2 + length n)),
             newRange (positionAt doc (length ?C + 1)) (positionAt doc (length ?C + 1 + length n))]"
    by (simp only: np f option.case)
  then show ?thesis
    unfolding len r by (simp add: nameRange_def)
qed

lemma element_range_texts:
  assumes "validName n" and "eolOk doc" and "getText doc = pre @ render (Element n a kids) @ post"
  shows "getTextIn doc (nameRange doc (length pre + 1) (length n)) = n"
    and "getTextIn doc
           (nameRange doc (length pre + length n + length (renderAttrs a) + length (renderAll kids) + 4)
              (length n)) = n"
proof -
  let ?R = "renderAll kids"
  let ?A = "renderAttrs a"
  have t1: "getText doc = (pre @ ''<'') @ n @
              (?A @ CHR ''>'' # ?R @ CHR ''<'' # CHR ''/'' # n @ CHR ''>'' # post)"
    using assms(3) by (simp add: render_Element)
  have l1: "length (pre @ ''<'') = length pre + 1" by simp
  from name_range(2) [OF assms(2) t1 assms(1)]
  show "getTextIn doc (nameRange doc (length pre + 1) (length n)) = n"
    unfolding l1 by (simp add: nameRange_def)
  have t2: "getText doc = (pre @ CHR ''<'' # n @ ?A @ CHR ''>'' # ?R @ ''</'') @ n @ (CHR ''>'' # post)"
    using assms(3) by (simp add: render_Element)
  have len: "length (pre @ CHR ''<'' # n @ ?A @ CHR ''>'' # ?R @ ''</'') =
             length pre + length n + length ?A + length ?R + 4"
    by simp
  from name_range(2) [OF assms(2) t2 assms(1)]
  show "getTextIn doc (nameRange doc (length pre + length n + length ?A + length ?R + 4) (length n)) = n"
    unfolding len by (simp add: nameRange_def)
qed

subsection \<open>When provideDocumentHighlights returns\<close>

lemma provideDocumentHighlights_no_word:
  "getWordRangeAtPosition doc pos = None \<Longrightarrow> provideDocumentHighlights doc pos = Inr []"
  by (simp add: provideDocumentHighlights_def)

lemma provideDocumentHighlights_anchor_first:
  assumes "getWordRangeAtPosition doc pos = Some r" and "provideDocumentHighlights doc pos = Inr rs"
  shows "\<exists>rest. rs = r # rest"
  using assms
  by (auto simp: provideDocumentHighlights_def Let_def split: sum.splits if_splits option.splits)

lemma prev_Inl_iff: "prev doc p k = Inl err \<longleftrightarrow> character p < k \<and> err = IllegalArgument"
  by (cases err) (auto simp: prev_def newPosition_def split: sum.splits)

lemma next_Inr: "\<exists>s. next doc p k = Inr s"
  by (simp add: next_def newPosition_def)

lemma provideDocumentHighlights_throws_at_column_0:
  assumes "getWordRangeAtPosition doc pos = Some r" and "character (range_start r) = 0"
  shows "provideDocumentHighlights doc pos = Inl IllegalArgument"
proof -
  have "prev doc (range_start r) 1 = Inl IllegalArgument"
    using assms(2) by (simp add: prev_Inl_iff)
  with assms(1) show ?thesis by (simp add: provideDocumentHighlights_def)
qed

lemma provideDocumentHighlights_returns_from_column_2:
  assumes "getWordRangeAtPosition doc pos = Some r" and "2 \<le> character (range_start r)"
  shows "\<exists>rest. provideDocumentHighlights doc pos = Inr (r # rest)"
proof -
  obtain s1 where s1: "prev doc (range_start r) 1 = Inr s1"
    using assms(2) prev_Inl_iff [of doc "range_start r" 1] by (cases "prev doc (range_start r) 1") auto
  obtain s2 where s2: "prev doc (range_start r) 2 = Inr s2"
    using assms(2) prev_Inl_iff [of doc "range_start r" 2] by (cases "prev doc (range_start r) 2") auto
  obtain s3 where s3: "next doc (range_end r) 1 = Inr s3"
    using next_Inr by blast
  from s1 have s1': "prev doc (range_start r) (Suc 0) = Inr s1" by simp
  from s3 have s3': "next doc (range_end r) (Suc 0) = Inr s3" by simp
  show ?thesis
    by (simp add: provideDocumentHighlights_def assms(1) s1' s2 s3' Let_def split: option.splits)
qed

subsection \<open>The examples of the specification\<close>

text \<open>
  The model on the examples that the specification lists as testable: a
  commented-out end tag is not seen, a quoted \<open>/>\<close> does not end a
  self-closing tag, and crossed tags give no partner.
\<close>

lemma example_comment_blind:
  "provideDocumentHighlights \<lparr>lines = [''<!-- </view> --><view>x</view>''], eol = [CHR 0x0A]\<rparr>
     (Position 0 17) =
   Inr [Range (Position 0 17) (Position 0 21), Range (Position 0 25) (Position 0 29)]"
  by code_simp

lemma example_quoted_self_closing:
  "normalize (''<image src='' @ [CHR 0x22] @ ''a/>b'' @ [CHR 0x22] @ '' />'') = replicate 20 CHR '' '' \<and>
   provideDocumentHighlights
     \<lparr>lines = [''<image src='' @ [CHR 0x22] @ ''a/>b'' @ [CHR 0x22] @ '' />''], eol = [CHR 0x0A]\<rparr>
     (Position 0 1) = Inr [Range (Position 0 1) (Position 0 6)]"
  by code_simp

lemma example_crossed_tags:
  "provideDocumentHighlights \<lparr>lines = [''<a><b></a>''], eol = [CHR 0x0A]\<rparr> (Position 0 1) =
     Inr [Range (Position 0 1) (Position 0 2)] \<and>
   provideDocumentHighlights \<lparr>lines = [''<a><b></a>''], eol = [CHR 0x0A]\<rparr> (Position 0 4) =
     Inr [Range (Position 0 4) (Position 0 5)]"
  by code_simp

subsection \<open>Claims\<close>

text \<open>
  C1, as the claim states it, fails on well-formed fragments.  In
  \<open><a><foo/></a>\<close> the bare self-closing child is tokenized as a start tag:
  with the anchor on the start tag \<open>a\<close> only the anchor is returned, and with
  the anchor on the end tag \<open>a\<close> the second range lies on \<open>foo\<close> and its text
  is \<open>f\<close>.  In \<open><a><b>don't</b><c>can't</c></a>\<close> the two apostrophes are taken
  for a quoted literal, the tags between them are blanked, and the anchor on
  the start tag \<open>a\<close> gets no partner.
\<close>

theorem tag_pair_counterexample:
  "provideDocumentHighlights \<lparr>lines = [''<a><foo/></a>''], eol = [CHR 0x0A]\<rparr> (Position 0 1) =
     Inr [Range (Position 0 1) (Position 0 2)] \<and>
   provideDocumentHighlights \<lparr>lines = [''<a><foo/></a>''], eol = [CHR 0x0A]\<rparr> (Position 0 11) =
     Inr [Range (Position 0 11) (Position 0 12), Range (Position 0 4) (Position 0 5)] \<and>
   getTextIn \<lparr>lines = [''<a><foo/></a>''], eol = [CHR 0x0A]\<rparr>
     (Range (Position 0 4) (Position 0 5)) = ''f'' \<and>
   provideDocumentHighlights \<lparr>lines = [''<a><b>don't</b><c>can't</c></a>''], eol = [CHR 0x0A]\<rparr>
     (Position 0 1) = Inr [Range (Position 0 1) (Position 0 2)]"
  by code_simp

text \<open>
  C1, amended.  Let the document contain an element: a start tag
  \<open><name \<dots>>\<close>, content, and the end tag \<open></name>\<close>.  The name consists
  of characters in \<open>[\w:-]\<close>.  The start tag may carry attributes, on one
  line or on several: after the name comes nothing or a character that is not
  a name character, values stand in double or single quotes and do not
  contain \<open><!--\<close>, outside quotes there is no \<open><\<close>, \<open>>\<close> or quote, and the
  tag does not end in \<open>/>\<close>.  The content is built from characters other
  than \<open><\<close> and the two quotes, from comments on one line, from
  self-closing tags that have white space after their name, and from nested
  elements of the same form.  The text after the element is arbitrary, and
  the line terminator is a line feed or a carriage return and line feed.
  With \<open>s\<close> the offset of the start-tag name and \<open>e\<close> the offset of the
  end-tag name:

    \<^item> with the cursor at any offset of the start-tag name (from its first
      character to just behind its last), whatever the text before the
      element, \<open>provideDocumentHighlights\<close> returns the range of the
      start-tag name and the range of the end-tag name;

    \<^item> with the cursor on the end-tag name it returns the same two ranges in
      the other order, if the text before the element is built from the start
      tags of the enclosing elements and from markup as in the content;

    \<^item> the document text of either range is the tag name.

  What is left out is what the two counterexamples show (a self-closing tag
  without white space after its name, a quote in text) and what C7 shows (a
  comment that spans lines).
\<close>

theorem tag_pair_highlighted:
  assumes "validName n" and "attrsOk a" and "list_all wellFormed kids" and "eolOk doc"
    and "getText doc = pre @ render (Element n a kids) @ post" and "k \<le> length n"
    and "s = length pre + 1"
    and "e = s + length n + length (renderAttrs a) + 1 + length (renderAll kids) + 2"
  shows "provideDocumentHighlights doc (positionAt doc (s + k)) =
           Inr [nameRange doc s (length n), nameRange doc e (length n)] \<and>
         (list_all itemOk ctx \<and> pre = renderItems ctx \<longrightarrow>
          provideDocumentHighlights doc (positionAt doc (e + k)) =
            Inr [nameRange doc e (length n), nameRange doc s (length n)]) \<and>
         getTextIn doc (nameRange doc s (length n)) = n \<and>
         getTextIn doc (nameRange doc e (length n)) = n"
proof -
  have e: "e = length pre + length n + length (renderAttrs a) + length (renderAll kids) + 4"
    using assms(7,8) by simp
  have e': "length (renderItems ctx) + length n + length (renderAttrs a) + length (renderAll kids) + 4 = e"
    if "pre = renderItems ctx"
    using e that by simp
  have s': "length (renderItems ctx) + 1 = s" if "pre = renderItems ctx"
    using assms(7) that by simp
  have "provideDocumentHighlights doc (positionAt doc (s + k)) =
        Inr [nameRange doc s (length n), nameRange doc e (length n)]"
    unfolding e assms(7) using assms(1-6) by (rule start_anchor_element)
  moreover have "provideDocumentHighlights doc (positionAt doc (e + k)) =
        Inr [nameRange doc e (length n), nameRange doc s (length n)]"
    if c: "list_all itemOk ctx" and p: "pre = renderItems ctx"
  proof -
    have t: "getText doc = renderItems ctx @ render (Element n a kids) @ post"
      using assms(5) p by simp
    from end_anchor_element [OF c assms(1-4) t assms(6)] show ?thesis
      unfolding e' [OF p] s' [OF p] .
  qed
  moreover have "getTextIn doc (nameRange doc s (length n)) = n"
    unfolding assms(7) using assms(1,4,5) by (rule element_range_texts(1))
  moreover have "getTextIn doc (nameRange doc e (length n)) = n"
    unfolding e using assms(1,4,5) by (rule element_range_texts(2))
  ultimately show ?thesis by blast
qed

theorem tag_pair_highlighted_witness:
  "provideDocumentHighlights
     \<lparr>lines = [''<page>'', ''  <view class='a>b'>'', ''    <!-- </view> --><image src='a/>b' />'',
               ''    <text>a < 'b'</text>'', ''  </view>'', ''</page>''],
      eol = [CHR 0x0A]\<rparr> (Position 1 5) =
     Inr [Range (Position 1 3) (Position 1 7), Range (Position 4 4) (Position 4 8)] \<and>
   provideDocumentHighlights
     \<lparr>lines = [''<page>'', ''  <view class='a>b'>'', ''    <!-- </view> --><image src='a/>b' />'',
               ''    <text>a < 'b'</text>'', ''  </view>'', ''</page>''],
      eol = [CHR 0x0A]\<rparr> (Position 4 6) =
     Inr [Range (Position 4 4) (Position 4 8), Range (Position 1 3) (Position 1 7)] \<and>
   getTextIn
     \<lparr>lines = [''<page>'', ''  <view class='a>b'>'', ''    <!-- </view> --><image src='a/>b' />'',
               ''    <text>a < 'b'</text>'', ''  </view>'', ''</page>''],
      eol = [CHR 0x0A]\<rparr> (Range (Position 1 3) (Position 1 7)) = ''view'' \<and>
   getTextIn
     \<lparr>lines = [''<page>'', ''  <view class='a>b'>'', ''    <!-- </view> --><image src='a/>b' />'',
               ''    <text>a < 'b'</text>'', ''  </view>'', ''</page>''],
      eol = [CHR 0x0A]\<rparr> (Range (Position 4 4) (Position 4 8)) = ''view''"
proof -
  let ?doc = "\<lparr>lines = [''<page>'', ''  <view class='a>b'>'',
                       ''    <!-- </view> --><image src='a/>b' />'',
                       ''    <text>a < 'b'</text>'', ''  </view>'', ''</page>''],
               eol = [CHR 0x0A]\<rparr>"
  let ?ctx = "[Open ''page'' [], Node (Text CHR 0x0A), Node (Text CHR '' ''), Node (Text CHR '' '')]"
  let ?a = "map Plain '' class='' @ [SQuoted ''a>b'']"
  let ?kids = "map Text (CHR 0x0A # ''    '') @
               [Comment '' </view> '', Void ''image'' (map Plain '' src='' @ [SQuoted ''a/>b'', Plain CHR '' ''])] @
               map Text (CHR 0x0A # ''    '') @
               [Element ''text'' [] [Text CHR ''a'', Text CHR '' '', Less CHR '' '', Quoted (SQuoted ''b'')]] @
               map Text (CHR 0x0A # ''  '')"
  let ?post = "CHR 0x0A # ''</page>''"
  have c: "list_all itemOk ?ctx" by code_simp
  have n: "validName ''view''" by code_simp
  have a: "attrsOk ?a" by code_simp
  have kids: "list_all wellFormed ?kids" by code_simp
  have e: "eolOk ?doc" by code_simp
  have t: "getText ?doc = renderItems ?ctx @ render (Element ''view'' ?a ?kids) @ ?post" by code_simp
  have k: "(2::nat) \<le> length ''view''" by simp
  have s10: "(10::nat) = length (renderItems ?ctx) + 1" by code_simp
  have e98: "(98::nat) = 10 + length ''view'' + length (renderAttrs ?a) + 1 + length (renderAll ?kids) + 2"
    by code_simp
  have p1: "positionAt ?doc (10 + 2) = Position 1 5" by code_simp
  have p2: "positionAt ?doc (98 + 2) = Position 4 6" by code_simp
  have r1: "nameRange ?doc 10 (length ''view'') = Range (Position 1 3) (Position 1 7)"
    by code_simp
  have r2: "nameRange ?doc 98 (length ''view'') = Range (Position 4 4) (Position 4 8)"
    by code_simp
  from tag_pair_highlighted [OF n a kids e t k s10 e98, of ?ctx] c show ?thesis
    unfolding p1 p2 r1 r2 by blast
qed

text \<open>
  C2.  \<open>normalize\<close> returns a string of exactly the length of its input, for
  every input: each character of the result is the character of the input at
  that offset or a space, so an offset into the normalized text is an offset
  into the original text.
\<close>

theorem normalize_preserves_length:
  "length (normalize text) = length text \<and>
   list_all2 (\<lambda>a b. b = a \<or> b = CHR '' '') text (normalize text)"
proof
  show "length (normalize text) = length text"
    by (simp add: normalize_def length_replace)
next
  have a: "list_all2 (\<lambda>a b. b = a \<or> b = CHR '' '') text (replace commentRx text)"
    by (rule replace_blank_or_same)
  have b: "list_all2 (\<lambda>a b. b = a \<or> b = CHR '' '')
             (replace commentRx text) (replace quotedRx (replace commentRx text))"
    by (rule replace_blank_or_same)
  have c: "list_all2 (\<lambda>a b. b = a \<or> b = CHR '' '')
             (replace quotedRx (replace commentRx text)) (normalize text)"
    unfolding normalize_def by (rule replace_blank_or_same)
  from blank_or_same_trans [OF blank_or_same_trans [OF a b] c]
  show "list_all2 (\<lambda>a b. b = a \<or> b = CHR '' '') text (normalize text)" .
qed



text \<open>
  C4.  The claim is what the comments in the source announce (a mismatch is a
  format error and stops the search; the forward matcher returns nothing after
  the same \<open>break\<close>), but the code does otherwise.  For the preceding text
  \<open><a><b></x>\<close> the end token \<open>x\<close> pops \<open>b\<close>, the names differ, the loop is
  left, and the function returns the offset 0 of the entry \<open>a\<close> that is still
  on the stack; the resolver then highlights \<open>a\<close> as the partner of \<open></c>\<close>.
\<close>

theorem findMatchedStartTag_mismatch_returns_offset:
  "findMatchedStartTag ''c'' ''<a><b></x>'' = Some 0 \<and>
   provideDocumentHighlights \<lparr>lines = [''<a><b></x></c>''], eol = [CHR 0x0A]\<rparr> (Position 0 12) =
     Inr [Range (Position 0 12) (Position 0 13), Range (Position 0 1) (Position 0 2)]"
  by code_simp

text \<open>
  C5.  The claim is what the source sets out to do: the backward matcher
  leaves its loop on an end token met with an empty stack, and the forward
  matcher's own mismatch branch is commented as a format error that stops the
  search.  But in the forward matcher the test \<open>endName === name\<close> has no
  \<open>else\<close> branch, so an end token of another name met with an empty stack
  is dropped and the scan goes on (\<open>endLoop_scans_past_other_end_tag\<close>).  In
  the tail \<open>></b></a>\<close> the end token \<open>b\<close> is met with an empty stack and
  differs from the searched name \<open>a\<close>, yet the later \<open></a>\<close> is returned.
  In the document \<open><a></b></a>\<close> the two directions disagree: from the start
  tag \<open>a\<close> the end tag \<open>a\<close> is highlighted as its partner, from the end tag
  \<open>a\<close> nothing is.
\<close>

theorem findMatchedEndTag_scans_past_foreign_end_tag:
  "findMatchedEndTag ''a'' ''></b></a>'' = Some 5 \<and>
   provideDocumentHighlights \<lparr>lines = [''<a></b></a>''], eol = [CHR 0x0A]\<rparr> (Position 0 1) =
     Inr [Range (Position 0 1) (Position 0 2), Range (Position 0 9) (Position 0 10)] \<and>
   provideDocumentHighlights \<lparr>lines = [''<a></b></a>''], eol = [CHR 0x0A]\<rparr> (Position 0 9) =
     Inr [Range (Position 0 9) (Position 0 10)]"
  by code_simp

text \<open>
  C6, as the claim states it, fails: for the tail \<open>></a>\<close> the matcher returns
  1, the index of the \<open><\<close> of \<open></a>\<close>, while the name starts at index 3.
\<close>

theorem findMatchedEndTag_offset_counterexample:
  "findMatchedEndTag ''a'' ''></a>'' = Some 1 \<and> ''></a>'' ! 1 = CHR ''<'' \<and> ''></a>'' ! 3 = CHR ''a''"
  by code_simp

text \<open>
  C6, amended.  When \<open>findMatchedEndTag\<close> finds the matching end tag, the offset
  it returns is \<open>mat.index\<close>, the index within the scanned slice of the \<open><\<close>
  that opens the end tag: the slice reads \<open></\<close>, the name, \<open>>\<close> from there.
  The name itself starts two characters later, which the caller adds.
\<close>

theorem findMatchedEndTag_returns_index_of_end_tag:
  assumes "findMatchedEndTag name tail = Some i"
  shows "take (length name + 3) (drop i tail) = ''</'' @ name @ ''>''"
proof -
  from assms findMatchedEndTag_loop_Some [of name tail 0 "[]" i]
  obtain k where "tagAt (drop i tail) = Some (EndName name, k)"
    by (auto simp: findMatchedEndTag_def)
  from tagAt_EndName [OF this] show ?thesis by auto
qed

theorem findMatchedEndTag_returns_index_of_end_tag_witness:
  "findMatchedEndTag ''view'' ''>x</view>'' = Some 2 \<and>
   take (length ''view'' + 3) (drop 2 ''>x</view>'') = ''</'' @ ''view'' @ ''>''"
proof -
  have h: "findMatchedEndTag ''view'' ''>x</view>'' = Some 2" by code_simp
  from h findMatchedEndTag_returns_index_of_end_tag [OF h] show ?thesis by simp
qed

text \<open>
  C7.  The claim is what the source announces (comments are removed), but
  \<open>.\<close> does not match a line terminator, so a comment that spans lines is
  left as it is and the end tag inside it is tokenized, while the same comment
  on one line is blanked.  In the document
  \<open><a><!--\<close>, \<open></a>--></a>\<close> (two lines) the anchor on the start tag \<open>a\<close> is
  paired with the \<open></a>\<close> inside the comment.
\<close>

theorem normalize_keeps_comment_across_lines:
  "normalize ''<!--</a>-->'' = replicate 11 CHR '' '' \<and>
   normalize (''<!--'' @ [CHR 0x0A] @ ''</a>-->'') = ''<!--'' @ [CHR 0x0A] @ ''</a>-->'' \<and>
   provideDocumentHighlights \<lparr>lines = [''<a><!--'', ''</a>--></a>''], eol = [CHR 0x0A]\<rparr> (Position 0 1) =
     Inr [Range (Position 0 1) (Position 0 2), Range (Position 1 2) (Position 1 3)]"
  by code_simp

text \<open>
  C8.  A bare self-closing tag \<open><name/>\<close> is left unchanged by \<open>normalize\<close>.
  Wherever such a tag stands in a document, the text that follows its name
  still starts with \<open>/>\<close> after \<open>normalize\<close>, the test for a self-closing
  tag succeeds on it, and with the anchor on the name the resolver returns the
  anchor range only.
\<close>

theorem bare_self_closing_tag_anchor_only:
  assumes "validName n" and "eolOk doc"
    and "getText doc = pre @ ''<'' @ n @ ''/>'' @ post" and "k \<le> length n"
  shows "normalize (''<'' @ n @ ''/>'') = ''<'' @ n @ ''/>'' \<and>
         test selfCloseTestRx (normalize (''/>'' @ post)) \<and>
         provideDocumentHighlights doc (positionAt doc (length pre + 1 + k)) =
           Inr [nameRange doc (length pre + 1) (length n)]"
proof (intro conjI)
  have open_tag: "normalize (CHR ''<'' # n @ CHR ''/'' # ''>'') =
        CHR ''<'' # n @ CHR ''/'' # normalize ''>''"
    using assms(1) by (intro normalize_open) (simp_all add: inert_def)
  have "normalize (''>'' @ []) = ''>'' @ normalize []"
    by (rule normalize_inert) (simp add: inert_def)
  then have "normalize ''>'' = ''>''" by simp
  with open_tag show "normalize (''<'' @ n @ ''/>'') = ''<'' @ n @ ''/>''" by simp
  have np: "normalize (''/>'' @ post) = ''/>'' @ normalize post"
    by (rule normalize_inert) (simp add: inert_def)
  then show t: "test selfCloseTestRx (normalize (''/>'' @ post))"
    by (simp add: test_slash_gt)
  have g: "getText doc = pre @ CHR ''<'' # n @ CHR ''/'' # (CHR ''>'' # post)"
    using assms(3) by simp
  have "provideDocumentHighlights doc (positionAt doc (Suc (length pre) + k)) =
     (if test selfCloseTestRx (normalize (CHR ''/'' # CHR ''>'' # post))
      then Inr [Range (positionAt doc (Suc (length pre)))
                  (positionAt doc (Suc (length pre) + length n))]
      else case findMatchedEndTag n (normalize (CHR ''/'' # CHR ''>'' # post)) of
             None \<Rightarrow>
               Inr [Range (positionAt doc (Suc (length pre)))
                      (positionAt doc (Suc (length pre) + length n))]
           | Some j \<Rightarrow>
               Inr [Range (positionAt doc (Suc (length pre)))
                      (positionAt doc (Suc (length pre) + length n)),
                    newRange (positionAt doc (Suc (length pre) + length n + j + 2))
                      (positionAt doc (Suc (length pre) + length n + j + 2 + length n))])"
    using assms(2) g assms(1) _ assms(4) by (rule start_anchor) simp
  moreover from t have "test selfCloseTestRx (normalize (CHR ''/'' # CHR ''>'' # post))"
    by simp
  ultimately show "provideDocumentHighlights doc (positionAt doc (length pre + 1 + k)) =
                   Inr [nameRange doc (length pre + 1) (length n)]"
    by (simp add: nameRange_def)
qed

theorem bare_self_closing_tag_anchor_only_witness:
  "normalize ''<foo/>'' = ''<foo/>'' \<and>
   provideDocumentHighlights \<lparr>lines = [''<a>'', ''  <foo/>'', ''</a>''], eol = [CHR 0x0A]\<rparr>
     (Position 1 4) = Inr [Range (Position 1 3) (Position 1 6)]"
proof -
  let ?doc = "\<lparr>lines = [''<a>'', ''  <foo/>'', ''</a>''], eol = [CHR 0x0A]\<rparr>"
  let ?pre = "''<a>'' @ [CHR 0x0A] @ ''  ''"
  let ?post = "[CHR 0x0A] @ ''</a>''"
  have n: "validName ''foo''" by code_simp
  have e: "eolOk ?doc" by code_simp
  have t: "getText ?doc = ?pre @ ''<'' @ ''foo'' @ ''/>'' @ ?post" by code_simp
  have k: "(1::nat) \<le> length ''foo''" by simp
  have p1: "positionAt ?doc (length ?pre + 1 + 1) = Position 1 4" by code_simp
  have r1: "nameRange ?doc (length ?pre + 1) (length ''foo'') = Range (Position 1 3) (Position 1 6)"
    by code_simp
  have v: "''<'' @ ''foo'' @ ''/>'' = ''<foo/>''" by simp
  from bare_self_closing_tag_anchor_only [OF n e t k] show ?thesis
    unfolding p1 r1 v by simp
qed

text \<open>
  C9.  The claim is what the source sets out to do (the result list starts
  out as the anchor's range), but \<open>prev\<close> builds a position with the column
  \<open>pos.character - length\<close>, and the host's \<open>Position\<close> constructor raises for
  a negative column.  So the method throws whenever the word under the cursor
  starts in column 0, and also when it starts in column 1 and is not preceded
  by \<open><\<close>: on the attribute \<open>class\<close> at the start of the second line of a
  start tag, on the only word \<open>abc\<close> of a document, and on \<open>abc\<close> after one
  space.
\<close>

theorem provideDocumentHighlights_throws_near_line_start:
  "provideDocumentHighlights \<lparr>lines = [''<view'', ''class=x>'', ''</view>''], eol = [CHR 0x0A]\<rparr>
     (Position 1 2) = Inl IllegalArgument \<and>
   provideDocumentHighlights \<lparr>lines = [''abc''], eol = [CHR 0x0A]\<rparr> (Position 0 1) =
     Inl IllegalArgument \<and>
   provideDocumentHighlights \<lparr>lines = ['' abc''], eol = [CHR 0x0A]\<rparr> (Position 0 2) =
     Inl IllegalArgument"
  by code_simp

text \<open>
  C10.  The backward matcher never looks at the searched name: for every
  preceding text and any two names it returns the same result, so the start tag
  whose offset it returns is never compared with the anchor's name.
\<close>

theorem findMatchedStartTag_ignores_name:
  "findMatchedStartTag n1 t = findMatchedStartTag n2 t"
proof -
  have "findMatchedStartTag_loop n1 t 0 [] = findMatchedStartTag_loop n2 t 0 []"
    by (rule findMatchedStartTag_loop_name)
  then show ?thesis by (simp add: findMatchedStartTag_def)
qed

end
